theory Spec2Isabelle
  imports Main "HOL-Library.Sublist" "HOL-Library.Word"
begin

section \<open>Asynchronous name resolution of the sFlow input plugin\<close>

text \<open>
  A shallow embedding of \<^verbatim>\<open>plugins/inputs/network_flow/sflow/sflow.go\<close>: the string-keyed
  caches, the name transformer (\<^verbatim>\<open>dnsProcessor\<close>), the two lookup backends
  (\<^verbatim>\<open>ipToFqdn\<close>, \<^verbatim>\<open>ifIndexToIfName\<close>), the cached resolutions (\<^verbatim>\<open>resolveDNS\<close>,
  \<^verbatim>\<open>resolveIFace\<close>) and the completion counter of \<^verbatim>\<open>resolve\<close> (\<^verbatim>\<open>onResolve\<close>).

  Go strings are byte sequences, modelled as \<^typ>\<open>string\<close>. Logging is not modelled.
  What the code reads from the network (the reverse lookup, the SNMP walk) and the compiled
  regular expression's matcher are parameters of the model.
\<close>

subsection \<open>Panics\<close>

datatype panic =
  PanicMustCompile      \<comment> \<open>\<^verbatim>\<open>regexp.MustCompile\<close> on a pattern that does not parse\<close>
  | PanicTypeAssertion  \<comment> \<open>\<^verbatim>\<open>pdu.Value.([]byte)\<close> on a value that is not a byte slice\<close>
  | PanicNilConn        \<comment> \<open>\<^verbatim>\<open>gosnmp.Default.Conn.Close\<close> on a nil connection\<close>

subsection \<open>The Go string functions used by the code\<close>

text \<open>
  \<^verbatim>\<open>strings.Index(s, substr)\<close>: the index of the first instance of \<^verbatim>\<open>substr\<close> in \<^verbatim>\<open>s\<close>,
  or \<open>-1\<close>. \<^verbatim>\<open>strings.LastIndex\<close>: the index of the last instance, or \<open>-1\<close>.
\<close>

fun Index :: "string \<Rightarrow> string \<Rightarrow> int" where
  "Index [] substr = (if substr = [] then 0 else - 1)"
| "Index (c # s) substr =
     (if prefix substr (c # s) then 0
      else (let i = Index s substr in if i < 0 then - 1 else i + 1))"

fun LastIndex :: "string \<Rightarrow> string \<Rightarrow> int" where
  "LastIndex [] substr = (if substr = [] then 0 else - 1)"
| "LastIndex (c # s) substr =
     (let i = LastIndex s substr in
      if 0 \<le> i then i + 1 else if prefix substr (c # s) then 0 else - 1)"

text \<open>
  The slice \<^verbatim>\<open>s[lo:hi]\<close>. Go panics unless \<open>0 \<le> lo \<le> hi \<le> len(s)\<close>; the only slices
  of the code are taken inside that range (lemma \<open>newDNSProcessor_slices_in_range\<close>).
\<close>

definition substring :: "string \<Rightarrow> int \<Rightarrow> int \<Rightarrow> string" where
  "substring s lo hi = take (nat (hi - lo)) (drop (nat lo) s)"

subsection \<open>Compiled regular expressions\<close>

text \<open>
  A \<^verbatim>\<open>*regexp.Regexp\<close> is used through two methods. The matcher
  \<^verbatim>\<open>FindAllStringSubmatchIndex(s, -1)\<close> is a field of the model: for each successive
  non-overlapping match, leftmost first, the slice of index pairs
  \<open>[start\<^sub>0, end\<^sub>0, start\<^sub>1, end\<^sub>1, \<dots>]\<close> of the whole match and of each capture group,
  \<open>-1\<close> for a group that did not take part. \<^verbatim>\<open>subexpNames\<close> are the names of the groups
  (the empty name for the whole match and for unnamed groups).
\<close>

record regexp =
  subexpNames :: "string list"
  FindAllStringSubmatchIndex :: "string \<Rightarrow> int list list"

text \<open>
  \<^verbatim>\<open>ExpandString(dst, template, src, match)\<close> of the standard library: the template is
  appended to \<open>dst\<close> with each variable \<^verbatim>\<open>$name\<close> or \<^verbatim>\<open>${name}\<close> replaced by the text of
  the group it names, \<^verbatim>\<open>$$\<close> by a dollar sign. A name is a longest run of letters, digits
  and underscores; a purely numeric name is a group index. An index out of range, a group
  that did not match and an unknown name give the empty text.

  The library decodes the template rune by rune and takes every Unicode letter and digit
  into a name. Here a name is a run of ASCII letters, digits and underscores: the model is
  that of the templates in which no variable is followed directly by a letter or digit
  outside ASCII. The properties below are about \<^verbatim>\<open>transform\<close> and hold for either scan.
\<close>

definition is_digit :: "char \<Rightarrow> bool" where
  "is_digit c = (48 \<le> (of_char c :: nat) \<and> (of_char c :: nat) \<le> 57)"

definition is_name_char :: "char \<Rightarrow> bool" where
  "is_name_char c =
     (is_digit c \<or> (97 \<le> (of_char c :: nat) \<and> (of_char c :: nat) \<le> 122)
      \<or> (65 \<le> (of_char c :: nat) \<and> (of_char c :: nat) \<le> 90) \<or> c = CHR ''_'')"

fun parse_num :: "string \<Rightarrow> int \<Rightarrow> int" where
  "parse_num [] num = num"
| "parse_num (c # cs) num =
     (if \<not> is_digit c \<or> 100000000 \<le> num then - 1
      else parse_num cs (num * 10 + (int (of_char c) - 48)))"

text \<open>
  \<^verbatim>\<open>extract\<close> of the library (here \<open>extract_var\<close>): the name at the head of the
  text that follows a dollar sign, its number
  (\<open>-1\<close> when it is not one, or has a leading zero) and the rest of the template.
\<close>

definition extract_var :: "string \<Rightarrow> (string \<times> int \<times> string) option" where
  "extract_var str =
     (if str = [] then None
      else
        let brace = (hd str = CHR ''{'');
            str1 = (if brace then tl str else str);
            name = takeWhile is_name_char str1;
            after = dropWhile is_name_char str1
        in if name = [] then None
           else if brace \<and> (after = [] \<or> hd after \<noteq> CHR ''}'') then None
           else Some (name,
                      (if hd name = CHR ''0'' \<and> 1 < length name then - 1 else parse_num name 0),
                      (if brace then tl after else after)))"

text \<open>The text of group \<open>i\<close> of a match: \<^verbatim>\<open>src[match[2*i]:match[2*i+1]]\<close> when the group matched.\<close>

definition group_text :: "string \<Rightarrow> int list \<Rightarrow> nat \<Rightarrow> string option" where
  "group_text src match i =
     (if 2 * i + 1 < length match \<and> 0 \<le> match ! (2 * i)
      then Some (substring src (match ! (2 * i)) (match ! (2 * i + 1)))
      else None)"

fun named_group_text :: "string list \<Rightarrow> string \<Rightarrow> string \<Rightarrow> int list \<Rightarrow> nat \<Rightarrow> string" where
  "named_group_text [] name src match i = []"
| "named_group_text (namei # names) name src match i =
     (if name = namei \<and> group_text src match i \<noteq> None then the (group_text src match i)
      else named_group_text names name src match (Suc i))"

definition variable_text :: "regexp \<Rightarrow> string \<Rightarrow> int \<Rightarrow> string \<Rightarrow> int list \<Rightarrow> string" where
  "variable_text re name num src match =
     (if 0 \<le> num then (case group_text src match (nat num) of Some t \<Rightarrow> t | None \<Rightarrow> [])
      else named_group_text (subexpNames re) name src match 0)"

lemma extract_rest_length:
  "extract_var str = Some (name, num, rest) \<Longrightarrow> length rest \<le> length str"
proof -
  have dw: "length (dropWhile is_name_char xs) \<le> length xs" for xs
    by (simp add: length_dropWhile_le)
  assume "extract_var str = Some (name, num, rest)"
  then show ?thesis
    using dw [of str] dw [of "tl str"]
    by (auto simp: extract_var_def Let_def split: if_splits)
qed

lemma after_dollar_length:
  "CHR ''$'' \<in> set template \<Longrightarrow>
   length (tl (dropWhile (\<lambda>c. c \<noteq> CHR ''$'') template)) < length template"
proof -
  assume a: "CHR ''$'' \<in> set template"
  then have "dropWhile (\<lambda>c. c \<noteq> CHR ''$'') template \<noteq> []"
    by auto
  moreover have "length (dropWhile (\<lambda>c. c \<noteq> CHR ''$'') template) \<le> length template"
    by (simp add: length_dropWhile_le)
  ultimately show ?thesis
    by (cases "dropWhile (\<lambda>c. c \<noteq> CHR ''$'') template") auto
qed

function expand :: "regexp \<Rightarrow> string \<Rightarrow> string \<Rightarrow> string \<Rightarrow> int list \<Rightarrow> string" where
  "expand re dst template src match =
     (if CHR ''$'' \<notin> set template then dst @ template
      else
        let before = takeWhile (\<lambda>c. c \<noteq> CHR ''$'') template;
            after = tl (dropWhile (\<lambda>c. c \<noteq> CHR ''$'') template)
        in if after \<noteq> [] \<and> hd after = CHR ''$''
           then expand re (dst @ before @ ''$'') (tl after) src match
           else (case extract_var after of
                   None \<Rightarrow> expand re (dst @ before @ ''$'') after src match
                 | Some (name, num, rest) \<Rightarrow>
                     expand re (dst @ before @ variable_text re name num src match)
                       rest src match))"
  by pat_completeness auto
termination
proof (relation "measure (\<lambda>(re, dst, template, src, match). length template)")
  show "wf (measure (\<lambda>(re, dst, template, src, match). length template))"
    by simp
next
  fix re :: regexp and dst template src :: string and match :: "int list" and before after
  assume d: "\<not> CHR ''$'' \<notin> set template"
    and a: "after = tl (dropWhile (\<lambda>c. c \<noteq> CHR ''$'') template)"
    and h: "after \<noteq> [] \<and> hd after = CHR ''$''"
  from d a have "length after < length template"
    using after_dollar_length by simp
  moreover from h have "length (tl after) < length after"
    by (cases after) auto
  ultimately show "((re, dst @ before @ ''$'', tl after, src, match),
      (re, dst, template, src, match)) \<in> measure (\<lambda>(re, dst, template, src, match). length template)"
    by simp
next
  fix re :: regexp and dst template src :: string and match :: "int list" and before after
  assume d: "\<not> CHR ''$'' \<notin> set template"
    and a: "after = tl (dropWhile (\<lambda>c. c \<noteq> CHR ''$'') template)"
  from d a have "length after < length template"
    using after_dollar_length by simp
  then show "((re, dst @ before @ ''$'', after, src, match),
      (re, dst, template, src, match)) \<in> measure (\<lambda>(re, dst, template, src, match). length template)"
    by simp
next
  fix re :: regexp and dst template src :: string and match :: "int list" and before after
    and x2 :: "string \<times> int \<times> string" and name :: string and y :: "int \<times> string"
    and num :: int and rest :: string
  assume d: "\<not> CHR ''$'' \<notin> set template"
    and a: "after = tl (dropWhile (\<lambda>c. c \<noteq> CHR ''$'') template)"
    and e: "extract_var after = Some x2" and x: "(name, y) = x2" and y: "(num, rest) = y"
  from d a have "length after < length template"
    using after_dollar_length by simp
  moreover from e x y have "length rest \<le> length after"
    using extract_rest_length [of after name num rest] by simp
  ultimately show "((re, dst @ before @ variable_text re name num src match, rest, src, match),
      (re, dst, template, src, match)) \<in> measure (\<lambda>(re, dst, template, src, match). length template)"
    by simp
qed

declare expand.simps [simp del]

definition ExpandString :: "regexp \<Rightarrow> string \<Rightarrow> string \<Rightarrow> string \<Rightarrow> int list \<Rightarrow> string" where
  "ExpandString re dst template src match = expand re dst template src match"

subsection \<open>The name transformer\<close>

record dnsProcessor =
  rePattern :: "regexp option"
  template :: string

text \<open>
  \<^verbatim>\<open>newDNSProcessor\<close>. \<^verbatim>\<open>regexp.MustCompile\<close> is the parameter \<open>compile\<close>: the compiled
  expression of a pattern text, \<open>None\<close> where the text does not parse and the call panics.
\<close>

definition newDNSProcessor :: "(string \<Rightarrow> regexp option) \<Rightarrow> string \<Rightarrow> panic + dnsProcessor" where
  "newDNSProcessor compile processString =
     (if processString = [] then Inr \<lparr>rePattern = None, template = []\<rparr>
      else
        let loc = Index processString ''s/'';
            endLoc = LastIndex processString ''/'';
            (re, tmpl) =
              (if loc = 0 \<and> endLoc > loc + 1
               then (substring processString (loc + 2) endLoc,
                     substring processString (endLoc + 1) (int (length processString)))
               else (processString, ''$1$2$3$4$5''))
        in case compile re of
             None \<Rightarrow> Inl PanicMustCompile
           | Some rx \<Rightarrow> Inr \<lparr>rePattern = Some rx, template = tmpl\<rparr>)"

text \<open>
  \<^verbatim>\<open>transform\<close>: the loop over the matches threads the result buffer and the flag
  \<^verbatim>\<open>expanded\<close>.
\<close>

definition transform :: "dnsProcessor \<Rightarrow> string \<Rightarrow> string" where
  "transform p name =
     (case rePattern p of
        None \<Rightarrow> name
      | Some re \<Rightarrow>
          (let (result, expanded) =
                 foldl (\<lambda>(result, expanded) submatches.
                          (ExpandString re result (template p) name submatches, True))
                       ([], False) (FindAllStringSubmatchIndex re name)
           in if \<not> expanded then name else result))"

subsection \<open>Metrics\<close>

text \<open>
  Modelled from the spec: \<^verbatim>\<open>telegraf.Metric\<close> is declared outside this file; the code uses
  its methods \<^verbatim>\<open>GetTag\<close> and \<^verbatim>\<open>AddTag\<close> only. The spec's record is ``an opaque telemetry
  entry with a mutable, string-keyed, string-valued tag set (keys unique)'': a metric is its
  tag set, a finite map.
\<close>

type_synonym metric = "string \<rightharpoonup> string"

definition GetTag :: "metric \<Rightarrow> string \<Rightarrow> string option" where
  "GetTag m key = m key"

definition AddTag :: "metric \<Rightarrow> string \<Rightarrow> string \<Rightarrow> metric" where
  "AddTag m key val = m(key \<mapsto> val)"

subsection \<open>The cache\<close>

text \<open>
  \<^verbatim>\<open>cache.data\<close> is a Go map from strings to strings: reading an absent key gives the
  empty string. Each method holds the cache's mutex for its whole body, so each is one
  atomic step.
\<close>

type_synonym cache = "string \<rightharpoonup> string"

definition cache_get :: "cache \<Rightarrow> string \<Rightarrow> string" where
  "cache_get c key = (case c key of None \<Rightarrow> [] | Some v \<Rightarrow> v)"

definition cache_set :: "cache \<Rightarrow> string \<Rightarrow> string \<Rightarrow> cache" where
  "cache_set c key val = c(key \<mapsto> val)"

definition cache_clear :: "cache \<Rightarrow> cache" where
  "cache_clear c = Map.empty"

definition newCache :: cache where
  "newCache = Map.empty"

subsection \<open>The reverse lookup\<close>

text \<open>
  \<^verbatim>\<open>ipToFqdn\<close>. The parameter is what \<^verbatim>\<open>net.Resolver.LookupAddr\<close> answers under the
  10 second deadline: an error (a timeout is one), or the list of names.
\<close>

datatype lookup_error = LookupError

definition ipToFqdn :: "(string \<Rightarrow> lookup_error + string list) \<Rightarrow> string \<Rightarrow> string" where
  "ipToFqdn LookupAddr ipAddress =
     (case LookupAddr ipAddress of
        Inr names \<Rightarrow> (if length names \<noteq> 0 then names ! 0 else ipAddress)
      | Inl err \<Rightarrow> ipAddress)"

subsection \<open>The interface-name walk\<close>

datatype asn1BER = OctetString | OtherBER

datatype pdu_value = Bytes string | OtherValue

record snmpPDU =
  Name :: string
  Type :: asn1BER
  Value :: pdu_value

text \<open>The fields of the shared client \<^verbatim>\<open>gosnmp.Default\<close> that the code writes.\<close>

record gosnmp =
  Target :: string
  Community :: string
  Timeout :: nat   \<comment> \<open>seconds\<close>
  Retries :: nat

text \<open>
  What the network answers to one use of the client: either the connection is nil when
  \<^verbatim>\<open>defer gosnmp.Default.Conn.Close()\<close> takes its method (a failed \<^verbatim>\<open>Connect\<close> is only
  logged), or \<^verbatim>\<open>BulkWalk\<close> hands the rows it received to the callback, in order, and then
  returns an error or not.
\<close>

datatype walk_outcome = ConnIsNil | Walked "snmpPDU list" bool

text \<open>
  The callback of the walk, on the pair of the captured variables \<^verbatim>\<open>result\<close> and
  \<^verbatim>\<open>found\<close>. It always returns nil, so the walk is never cut short by it.
\<close>

definition walkFn :: "string \<Rightarrow> string \<times> bool \<Rightarrow> snmpPDU \<Rightarrow> panic + string \<times> bool" where
  "walkFn pduNameToFind acc pdu =
     (case Type pdu of
        OctetString \<Rightarrow>
          (case Value pdu of
             Bytes b \<Rightarrow> (if Name pdu = pduNameToFind then Inr (b, True) else Inr acc)
           | OtherValue \<Rightarrow> Inl PanicTypeAssertion)
      | OtherBER \<Rightarrow> Inr acc)"

fun BulkWalk :: "('a \<Rightarrow> snmpPDU \<Rightarrow> panic + 'a) \<Rightarrow> 'a \<Rightarrow> snmpPDU list \<Rightarrow> panic + 'a" where
  "BulkWalk f acc [] = Inr acc"
| "BulkWalk f acc (pdu # pdus) =
     (case f acc pdu of Inl p \<Rightarrow> Inl p | Inr acc' \<Rightarrow> BulkWalk f acc' pdus)"

text \<open>
  \<^verbatim>\<open>ifIndexToIfName\<close>, under \<^verbatim>\<open>ifIndexToIfNameMux\<close> for its whole body. It returns the name
  and leaves the shared client changed. The error of the walk is logged and nothing else.
\<close>

definition ifIndexToIfName ::
  "(gosnmp \<Rightarrow> string \<Rightarrow> walk_outcome) \<Rightarrow> gosnmp \<Rightarrow> 64 word \<Rightarrow> string \<Rightarrow> string \<Rightarrow> string
     \<Rightarrow> panic + string \<times> gosnmp" where
  "ifIndexToIfName network Default ident community snmpAgentIP ifIndex =
     (let oid = ''1.3.6.1.2.1.31.1.1.1.1'';
          d1 = Default\<lparr>Target := snmpAgentIP\<rparr>;
          d2 = (if community \<noteq> [] then d1\<lparr>Community := community\<rparr> else d1);
          d3 = d2\<lparr>Timeout := 20, Retries := 5\<rparr>;
          pduNameToFind = ''.'' @ oid @ ''.'' @ ifIndex
      in case network d3 oid of
           ConnIsNil \<Rightarrow> Inl PanicNilConn
         | Walked pdus err \<Rightarrow>
             (case BulkWalk (walkFn pduNameToFind) (ifIndex, False) pdus of
                Inl p \<Rightarrow> Inl p
              | Inr (result, found) \<Rightarrow> Inr (result, d3)))"

subsection \<open>The resolver\<close>

text \<open>
  The fields of \<^verbatim>\<open>asyncResolver\<close> that are set once. The two backends are function
  values; they read the network, so each takes the number of lookups made before it (the
  network may answer the same question differently each time), and the interface backend
  also takes and returns the shared SNMP client.
\<close>

record asyncResolver =
  dns :: bool
  snmpIfaces :: bool
  snmpCommunity :: string
  dnsp :: dnsProcessor
  ipToFqdnFn :: "nat \<Rightarrow> string \<Rightarrow> string"
  ifIndexToIfNameFn ::
    "nat \<Rightarrow> gosnmp \<Rightarrow> 64 word \<Rightarrow> string \<Rightarrow> string \<Rightarrow> string \<Rightarrow> panic + string \<times> gosnmp"

text \<open>
  What changes while the resolver runs: the two caches, the global counter \<^verbatim>\<open>ops\<close>, the
  shared client, and (not in the code, kept to state the claims) the lookups that each
  backend was asked for, oldest first.
\<close>

record resolver_state =
  dnsCache :: cache
  ifaceCache :: cache
  ops :: "64 word"
  snmpDefault :: gosnmp
  dnsLookups :: "string list"
  ifaceLookups :: "(string \<times> string) list"

definition newAsyncResolver ::
  "(string \<Rightarrow> regexp option) \<Rightarrow> (nat \<Rightarrow> string \<Rightarrow> lookup_error + string list)
     \<Rightarrow> (nat \<Rightarrow> gosnmp \<Rightarrow> string \<Rightarrow> walk_outcome)
     \<Rightarrow> bool \<Rightarrow> string \<Rightarrow> bool \<Rightarrow> string \<Rightarrow> panic + asyncResolver" where
  "newAsyncResolver compile LookupAddr network dnsResolve dnsMultiProcessor snmpResolve community =
     (case newDNSProcessor compile dnsMultiProcessor of
        Inl p \<Rightarrow> Inl p
      | Inr dp \<Rightarrow>
          Inr \<lparr>dns = dnsResolve, snmpIfaces = snmpResolve, snmpCommunity = community,
               dnsp = dp,
               ipToFqdnFn = (\<lambda>t. ipToFqdn (LookupAddr t)),
               ifIndexToIfNameFn = (\<lambda>t. ifIndexToIfName (network t))\<rparr>)"

text \<open>The state a new resolver starts in: both caches empty (\<^verbatim>\<open>newCache\<close>).\<close>

definition newState :: "gosnmp \<Rightarrow> resolver_state" where
  "newState Default =
     \<lparr>dnsCache = newCache, ifaceCache = newCache, ops = 0, snmpDefault = Default,
      dnsLookups = [], ifaceLookups = []\<rparr>"

text \<open>
  \<^verbatim>\<open>resolveDNS\<close> and \<^verbatim>\<open>resolveIFace\<close>: the value handed to the continuation \<^verbatim>\<open>resolved\<close>
  and the state left behind. The key of the interface cache is
  \<^verbatim>\<open>fmt.Sprintf("%s-%s", agentIP, ifaceIndex)\<close>.
\<close>

definition resolveDNS :: "asyncResolver \<Rightarrow> resolver_state \<Rightarrow> string \<Rightarrow> string \<times> resolver_state" where
  "resolveDNS r st ipAddress =
     (let fqdn = cache_get (dnsCache st) ipAddress
      in if fqdn \<noteq> [] then (fqdn, st)
         else
           let name = ipToFqdnFn r (length (dnsLookups st)) ipAddress;
               fqdn = transform (dnsp r) name
           in (fqdn, st\<lparr>dnsCache := cache_set (dnsCache st) ipAddress fqdn,
                        dnsLookups := dnsLookups st @ [ipAddress]\<rparr>))"

definition ifaceKey :: "string \<Rightarrow> string \<Rightarrow> string" where
  "ifaceKey agentIP ifaceIndex = agentIP @ ''-'' @ ifaceIndex"

definition resolveIFace ::
  "asyncResolver \<Rightarrow> resolver_state \<Rightarrow> string \<Rightarrow> string \<Rightarrow> panic + string \<times> resolver_state" where
  "resolveIFace r st ifaceIndex agentIP =
     (let ident = ops st + 1;
          st1 = st\<lparr>ops := ident\<rparr>;
          name = cache_get (ifaceCache st1) (ifaceKey agentIP ifaceIndex)
      in if name \<noteq> [] then Inr (name, st1)
         else
           (case ifIndexToIfNameFn r (length (ifaceLookups st1)) (snmpDefault st1) ident
                   (snmpCommunity r) agentIP ifaceIndex of
              Inl p \<Rightarrow> Inl p
            | Inr (name, d) \<Rightarrow>
                Inr (name, st1\<lparr>ifaceCache := cache_set (ifaceCache st1)
                                               (ifaceKey agentIP ifaceIndex) name,
                                snmpDefault := d,
                                ifaceLookups := ifaceLookups st1 @ [(agentIP, ifaceIndex)]\<rparr>)))"

subsection \<open>Dispatch\<close>

text \<open>
  A job is the closure that \<^verbatim>\<open>dnsResolve\<close> or \<^verbatim>\<open>ifaceResolve\<close> sends to the worker: the
  tag value it captured (for an interface job also the agent address) and the tag that its
  continuation writes.
\<close>

datatype job = DNSJob string string | IFaceJob string string string

fun dstTag :: "job \<Rightarrow> string" where
  "dstTag (DNSJob v dst) = dst"
| "dstTag (IFaceJob v agentIP dst) = dst"

text \<open>\<^verbatim>\<open>dnsResolve\<close> and \<^verbatim>\<open>ifaceResolve\<close>: the job that the call dispatches, if it does.\<close>

definition dnsResolve :: "asyncResolver \<Rightarrow> metric \<Rightarrow> string \<Rightarrow> string \<Rightarrow> job list" where
  "dnsResolve r m srcTag dst =
     (case GetTag m srcTag of
        Some v \<Rightarrow> (if dns r then [DNSJob v dst] else [])
      | None \<Rightarrow> [])"

definition ifaceResolve ::
  "asyncResolver \<Rightarrow> metric \<Rightarrow> string \<Rightarrow> string \<Rightarrow> string \<Rightarrow> job list" where
  "ifaceResolve r m srcTag dst agentIP =
     (case GetTag m srcTag of
        Some v \<Rightarrow> (if snmpIfaces r then [IFaceJob v agentIP dst] else [])
      | None \<Rightarrow> [])"

text \<open>
  The jobs of one call of \<^verbatim>\<open>resolve\<close>, in the order of its six dispatch attempts. The
  continuations write the six name tags only, none of which is read here, so the tags read
  are those of the record as it was passed in.
\<close>

definition resolve_jobs :: "asyncResolver \<Rightarrow> metric \<Rightarrow> job list" where
  "resolve_jobs r m =
     dnsResolve r m ''agent_ip'' ''host''
     @ dnsResolve r m ''src_ip'' ''src_host''
     @ dnsResolve r m ''dst_ip'' ''dst_host''
     @ (case GetTag m ''agent_ip'' of
          Some agentIP \<Rightarrow>
            ifaceResolve r m ''source_id_index'' ''source_id_name'' agentIP
            @ ifaceResolve r m ''netif_index_out'' ''netif_name_out'' agentIP
            @ ifaceResolve r m ''netif_index_in'' ''netif_name_in'' agentIP
        | None \<Rightarrow> [])"

subsection \<open>The completion counter of one call of resolve\<close>

text \<open>
  One call of \<^verbatim>\<open>resolve\<close> and the jobs it dispatched, as a transition system. The state
  holds the \<^verbatim>\<open>onResolve\<close> counter, the record, and where the call stands: the jobs not yet
  dispatched (\<open>todo\<close>), the job whose increment is done and whose channel send is pending
  (\<open>sending\<close>), the jobs handed to the worker whose continuation has not run
  (\<open>inflight\<close>), and whether the last \<^verbatim>\<open>or.decrement()\<close> of \<^verbatim>\<open>resolve\<close> is still to come
  (\<open>guard\<close>). \<open>completed\<close> lists the records that \<^verbatim>\<open>onResolveFn\<close> was called with and
  \<open>submitted\<close> the jobs sent on the channel.
\<close>

record resolve_call =
  todo :: "job list"
  sending :: "job option"
  inflight :: "job list"
  guard :: bool
  counter :: int
  tags :: metric
  completed :: "metric list"
  submitted :: "job list"

text \<open>\<^verbatim>\<open>onResolve.increment\<close> and \<^verbatim>\<open>onResolve.decrement\<close>, each atomic under the mutex.\<close>

definition increment :: "resolve_call \<Rightarrow> resolve_call" where
  "increment c = c\<lparr>counter := counter c + 1\<rparr>"

definition decrement :: "resolve_call \<Rightarrow> resolve_call" where
  "decrement c =
     (let c1 = c\<lparr>counter := counter c - 1\<rparr>
      in if counter c1 = 0 then c1\<lparr>completed := completed c1 @ [tags c1]\<rparr> else c1)"

text \<open>The state in which \<^verbatim>\<open>resolve\<close> starts: \<^verbatim>\<open>counter: 1\<close>, nothing dispatched.\<close>

definition resolve :: "asyncResolver \<Rightarrow> metric \<Rightarrow> resolve_call" where
  "resolve r m =
     \<lparr>todo = resolve_jobs r m, sending = None, inflight = [], guard = True, counter = 1,
      tags = m, completed = [], submitted = []\<rparr>"

text \<open>
  The steps. \<open>Increment\<close> and \<open>Send\<close> are the two halves of a dispatch, taken by the
  thread that called \<^verbatim>\<open>resolve\<close>; \<open>FinalDecrement\<close> is its last statement.
  \<open>Finish k name\<close> is taken by the worker: the job at position \<open>k\<close> among those in
  flight has resolved its value to \<open>name\<close>, and its continuation adds the tag and
  decrements. Any job in flight may finish next: the single worker of the code finishes
  them in the order sent, which is one of the orders allowed here.
\<close>

datatype event = Increment | Send | Finish nat string | FinalDecrement

fun step :: "resolve_call \<Rightarrow> event \<Rightarrow> resolve_call option" where
  "step c Increment =
     (case (sending c, todo c) of
        (None, j # js) \<Rightarrow> Some (increment (c\<lparr>todo := js, sending := Some j\<rparr>))
      | _ \<Rightarrow> None)"
| "step c Send =
     (case sending c of
        Some j \<Rightarrow>
          Some (c\<lparr>sending := None, inflight := inflight c @ [j],
                 submitted := submitted c @ [j]\<rparr>)
      | None \<Rightarrow> None)"
| "step c (Finish k name) =
     (if k < length (inflight c)
      then Some (decrement
                   (c\<lparr>inflight := take k (inflight c) @ drop (Suc k) (inflight c),
                      tags := AddTag (tags c) (dstTag (inflight c ! k)) name\<rparr>))
      else None)"
| "step c FinalDecrement =
     (if guard c \<and> todo c = [] \<and> sending c = None
      then Some (decrement (c\<lparr>guard := False\<rparr>))
      else None)"

fun run :: "resolve_call \<Rightarrow> event list \<Rightarrow> resolve_call option" where
  "run c [] = Some c"
| "run c (e # es) = (case step c e of None \<Rightarrow> None | Some c' \<Rightarrow> run c' es)"

fun is_Finish :: "event \<Rightarrow> bool" where
  "is_Finish (Finish k name) = True"
| "is_Finish e = False"

text \<open>Every dispatched job has reported and \<^verbatim>\<open>resolve\<close> has returned.\<close>

definition all_reported :: "resolve_call \<Rightarrow> bool" where
  "all_reported c = (todo c = [] \<and> sending c = None \<and> inflight c = [] \<and> \<not> guard c)"

subsection \<open>The worker\<close>

text \<open>
  The worker runs one job at a time against the resolver's state; the tickers clear a cache
  between jobs. \<open>RunJob m k\<close>: the worker runs job \<open>k\<close> of the call \<^verbatim>\<open>resolve(m, _)\<close>
  (nothing happens if that call has no such job), so jobs of different calls interleave
  freely. A clear that falls between a job's \<^verbatim>\<open>get\<close> and its \<^verbatim>\<open>set\<close> leaves the cache as
  a clear just before the job (on a miss) or just after it (on a hit) does.
\<close>

fun exec_job :: "asyncResolver \<Rightarrow> resolver_state \<Rightarrow> job \<Rightarrow> panic + string \<times> resolver_state" where
  "exec_job r st (DNSJob v dst) = Inr (resolveDNS r st v)"
| "exec_job r st (IFaceJob v agentIP dst) = resolveIFace r st v agentIP"

datatype worker_event = RunJob metric nat | ClearDNS | ClearIFace

fun worker_step :: "asyncResolver \<Rightarrow> resolver_state \<Rightarrow> worker_event \<Rightarrow> panic + resolver_state" where
  "worker_step r st (RunJob m k) =
     (if k < length (resolve_jobs r m)
      then (case exec_job r st (resolve_jobs r m ! k) of
              Inl p \<Rightarrow> Inl p
            | Inr (name, st') \<Rightarrow> Inr st')
      else Inr st)"
| "worker_step r st ClearDNS = Inr (st\<lparr>dnsCache := cache_clear (dnsCache st)\<rparr>)"
| "worker_step r st ClearIFace = Inr (st\<lparr>ifaceCache := cache_clear (ifaceCache st)\<rparr>)"

fun worker_run :: "asyncResolver \<Rightarrow> resolver_state \<Rightarrow> worker_event list \<Rightarrow> panic + resolver_state" where
  "worker_run r st [] = Inr st"
| "worker_run r st (e # es) =
     (case worker_step r st e of Inl p \<Rightarrow> Inl p | Inr st' \<Rightarrow> worker_run r st' es)"

subsection \<open>Notions used to state the properties\<close>

text \<open>The six tags that \<^verbatim>\<open>resolve\<close> reads.\<close>

definition source_tags :: "string list" where
  "source_tags =
     [''agent_ip'', ''src_ip'', ''dst_ip'', ''source_id_index'', ''netif_index_out'',
      ''netif_index_in'']"

definition no_source_tag :: "metric \<Rightarrow> bool" where
  "no_source_tag m = list_all (\<lambda>t. GetTag m t = None) source_tags"

definition source_tags_nonempty :: "metric \<Rightarrow> bool" where
  "source_tags_nonempty m = list_all (\<lambda>t. GetTag m t \<noteq> Some []) source_tags"

text \<open>
  What the scan of the interface table retains, in the words of the spec made exact: the
  value of the last octet-string row named by the interface-name subtree and the index, or
  the index itself when there is no such row.
\<close>

definition bytes_of :: "pdu_value \<Rightarrow> string" where
  "bytes_of v = (case v of Bytes b \<Rightarrow> b | OtherValue \<Rightarrow> [])"

definition scan_rows :: "string \<Rightarrow> snmpPDU list \<Rightarrow> string" where
  "scan_rows ifIndex pdus =
     (case filter (\<lambda>p. Type p = OctetString \<and> Name p = ''.1.3.6.1.2.1.31.1.1.1.1.'' @ ifIndex)
             pdus of
        [] \<Rightarrow> ifIndex
      | ms \<Rightarrow> bytes_of (Value (last ms)))"

text \<open>The settings that \<^verbatim>\<open>ifIndexToIfName\<close> leaves in the shared client.\<close>

definition client_for :: "gosnmp \<Rightarrow> string \<Rightarrow> string \<Rightarrow> gosnmp" where
  "client_for Default community snmpAgentIP =
     Default\<lparr>Target := snmpAgentIP,
            Community := (if community \<noteq> [] then community else Community Default),
            Timeout := 20, Retries := 5\<rparr>"

text \<open>
  The invariant of the completion counter: it counts the guard unit of \<^verbatim>\<open>resolve\<close> and
  the jobs that were counted and have not reported; once the guard unit is gone nothing is
  left to dispatch; and the callback has run, once and on the record, exactly when the
  counter is zero.
\<close>

definition call_inv :: "resolve_call \<Rightarrow> bool" where
  "call_inv c =
     (counter c = (if guard c then 1 else 0) + (if sending c = None then 0 else 1)
                  + int (length (inflight c))
      \<and> (\<not> guard c \<longrightarrow> todo c = [] \<and> sending c = None)
      \<and> (if counter c = 0 then completed c = [tags c] else completed c = []))"

text \<open>The number of steps a call has left, and the number of its jobs that have not reported.\<close>

definition remaining :: "resolve_call \<Rightarrow> nat" where
  "remaining c = 3 * length (todo c) + (if sending c = None then 0 else 2)
                 + length (inflight c) + (if guard c then 1 else 0)"

definition unreported :: "resolve_call \<Rightarrow> nat" where
  "unreported c = length (todo c) + (if sending c = None then 0 else 1) + length (inflight c)"

subsection \<open>Concrete surroundings for the examples\<close>

text \<open>
  The compiled expression of a pattern that is one literal character: it has no capture
  group, and its matches are the occurrences of the character, left to right.
  \<open>compile_char\<close> compiles the patterns that are one letter, digit or underscore, and
  no others.
\<close>

fun char_matches :: "char \<Rightarrow> nat \<Rightarrow> string \<Rightarrow> int list list" where
  "char_matches c i [] = []"
| "char_matches c i (x # xs) =
     (if x = c then [int i, int (Suc i)] # char_matches c (Suc i) xs
      else char_matches c (Suc i) xs)"

definition literal_char :: "char \<Rightarrow> regexp" where
  "literal_char c = \<lparr>subexpNames = [[]], FindAllStringSubmatchIndex = char_matches c 0\<rparr>"

definition compile_char :: "string \<Rightarrow> regexp option" where
  "compile_char pat =
     (case pat of
        [c] \<Rightarrow> (if is_name_char c then Some (literal_char c) else None)
      | _ \<Rightarrow> None)"

text \<open>A network on which every reverse lookup fails.\<close>

definition lookup_fails :: "nat \<Rightarrow> string \<Rightarrow> lookup_error + string list" where
  "lookup_fails t ip = Inl LookupError"

text \<open>The client as the library initialises it.\<close>

definition default_client :: gosnmp where
  "default_client = \<lparr>Target = [], Community = ''public'', Timeout = 2, Retries = 3\<rparr>"

definition walk_eth7 :: "nat \<Rightarrow> gosnmp \<Rightarrow> string \<Rightarrow> walk_outcome" where
  "walk_eth7 t d oid =
     Walked [\<lparr>Name = ''.1.3.6.1.2.1.31.1.1.1.1.3'', Type = OctetString, Value = Bytes ''eth3''\<rparr>,
             \<lparr>Name = ''.1.3.6.1.2.1.31.1.1.1.1.7'', Type = OctetString, Value = Bytes ''eth7''\<rparr>]
            False"

definition example_resolver :: asyncResolver where
  "example_resolver =
     \<lparr>dns = True, snmpIfaces = True, snmpCommunity = [],
      dnsp = \<lparr>rePattern = None, template = []\<rparr>,
      ipToFqdnFn = (\<lambda>t. ipToFqdn (lookup_fails t)),
      ifIndexToIfNameFn = (\<lambda>t. ifIndexToIfName (walk_eth7 t))\<rparr>"

definition example_metric :: metric where
  "example_metric = [''agent_ip'' \<mapsto> ''10.0.0.1'', ''netif_index_in'' \<mapsto> ''7'']"

definition example_schedule :: "event list" where
  "example_schedule =
     [Increment, Send, Increment, Send, FinalDecrement, Finish 1 ''eth7'', Finish 0 ''10.0.0.1'']"

text \<open>
  An agent whose interface 7 has an empty name, one whose walk fails after the row of
  interface 7 has arrived, and resolvers on these networks.
\<close>

definition walk_unnamed :: "nat \<Rightarrow> gosnmp \<Rightarrow> string \<Rightarrow> walk_outcome" where
  "walk_unnamed t d oid =
     Walked [\<lparr>Name = ''.1.3.6.1.2.1.31.1.1.1.1.7'', Type = OctetString, Value = Bytes []\<rparr>] False"

definition walk_row_then_error :: "nat \<Rightarrow> gosnmp \<Rightarrow> string \<Rightarrow> walk_outcome" where
  "walk_row_then_error t d oid =
     Walked [\<lparr>Name = ''.1.3.6.1.2.1.31.1.1.1.1.7'', Type = OctetString, Value = Bytes ''eth7''\<rparr>]
            True"

definition unnamed_resolver :: asyncResolver where
  "unnamed_resolver = example_resolver\<lparr>ifIndexToIfNameFn := (\<lambda>t. ifIndexToIfName (walk_unnamed t))\<rparr>"

definition failing_walk_resolver :: asyncResolver where
  "failing_walk_resolver =
     example_resolver\<lparr>ifIndexToIfNameFn := (\<lambda>t. ifIndexToIfName (walk_row_then_error t))\<rparr>"

text \<open>The resolver configured with the rewrite \<^verbatim>\<open>s/0/x\<close>, on a network without reverse DNS.\<close>

definition rewriting_resolver :: asyncResolver where
  "rewriting_resolver =
     \<lparr>dns = True, snmpIfaces = False, snmpCommunity = [],
      dnsp = \<lparr>rePattern = Some (literal_char CHR ''0''), template = ''x''\<rparr>,
      ipToFqdnFn = (\<lambda>t. ipToFqdn (lookup_fails t)),
      ifIndexToIfNameFn = (\<lambda>t. ifIndexToIfName (walk_eth7 t))\<rparr>"

text \<open>Resolver states that the examples reach.\<close>

definition state_of ::
  "cache \<Rightarrow> cache \<Rightarrow> 64 word \<Rightarrow> gosnmp \<Rightarrow> string list \<Rightarrow> (string \<times> string) list
     \<Rightarrow> resolver_state" where
  "state_of dc ic n d dl il =
     \<lparr>dnsCache = dc, ifaceCache = ic, ops = n, snmpDefault = d, dnsLookups = dl,
      ifaceLookups = il\<rparr>"

text \<open>
  The worker's events concern records whose source tags are not empty; the jobs of such
  records; caches whose keys were built from non-empty components.
\<close>

definition records_nonempty :: "worker_event list \<Rightarrow> bool" where
  "records_nonempty es =
     list_all (\<lambda>e. case e of RunJob m k \<Rightarrow> source_tags_nonempty m | _ \<Rightarrow> True) es"

fun job_nonempty :: "job \<Rightarrow> bool" where
  "job_nonempty (DNSJob v dst) = (v \<noteq> [])"
| "job_nonempty (IFaceJob v agentIP dst) = (v \<noteq> [] \<and> agentIP \<noteq> [])"

definition keys_nonempty :: "resolver_state \<Rightarrow> bool" where
  "keys_nonempty st =
     ([] \<notin> dom (dnsCache st)
      \<and> (\<forall>key\<in>dom (ifaceCache st). \<exists>a i. a \<noteq> [] \<and> i \<noteq> [] \<and> key = ifaceKey a i))"

text \<open>A record whose agent address is the empty string, and a trace of the worker.\<close>

definition empty_agent_metric :: metric where
  "empty_agent_metric = [''agent_ip'' \<mapsto> [], ''source_id_index'' \<mapsto> ''7'']"

definition example_trace :: "worker_event list" where
  "example_trace =
     [RunJob example_metric 0, RunJob example_metric 1, ClearDNS, RunJob example_metric 0]"

section \<open>Properties\<close>

subsection \<open>The name transformer\<close>


lemma Index_ge: "- 1 \<le> Index s sub"
  by (induction s) (auto simp: Let_def)

lemma Index_zero_iff: "Index s sub = 0 \<longleftrightarrow> prefix sub s"
proof (cases s)
  case Nil
  then show ?thesis by auto
next
  case (Cons c cs)
  then show ?thesis using Index_ge [of cs sub] by (auto simp: Let_def)
qed

lemma LastIndex_ge: "- 1 \<le> LastIndex s sub"
  by (induction s) (auto simp: Let_def)

lemma LastIndex_absent: "c \<notin> set s \<Longrightarrow> LastIndex s [c] = - 1"
  by (induction s) (auto simp: Let_def)

lemma LastIndex_last:
  "c \<notin> set t \<Longrightarrow> LastIndex (p @ c # t) [c] = int (length p)"
  by (induction p) (auto simp: Let_def LastIndex_absent)

lemma LastIndex_bound: "LastIndex s [c] < int (length s)"
  by (induction s) (auto simp: Let_def)


lemma newDNSProcessor_sed:
  assumes "CHR ''/'' \<notin> set t"
  shows "newDNSProcessor compile (''s/'' @ p @ ''/'' @ t) =
    (case compile p of None \<Rightarrow> Inl PanicMustCompile
     | Some rx \<Rightarrow> Inr \<lparr>rePattern = Some rx, template = t\<rparr>)"
proof -
  let ?S = "''s/'' @ p @ ''/'' @ t"
  have i: "Index ?S ''s/'' = 0" by simp
  have "LastIndex ((''s/'' @ p) @ CHR ''/'' # t) ''/'' = int (length (''s/'' @ p))"
    using assms by (rule LastIndex_last)
  then have l: "LastIndex ?S ''/'' = 2 + int (length p)" by simp
  have s1: "substring ?S 2 (2 + int (length p)) = p" by (simp add: substring_def)
  have "nat (2 + int (length p) + 1) = Suc (Suc (Suc (length p)))" by simp
  then have s2: "substring ?S (2 + int (length p) + 1) (int (length ?S)) = t"
    by (simp add: substring_def)
  show ?thesis
    unfolding newDNSProcessor_def Let_def i l using s1 s2 by (simp add: add.commute)
qed

lemma newDNSProcessor_plain:
  assumes "S \<noteq> []" and "\<not> (prefix ''s/'' S \<and> CHR ''/'' \<in> set (drop 2 S))"
  shows "newDNSProcessor compile S =
    (case compile S of None \<Rightarrow> Inl PanicMustCompile
     | Some rx \<Rightarrow> Inr \<lparr>rePattern = Some rx, template = ''$1$2$3$4$5''\<rparr>)"
proof (cases "prefix ''s/'' S")
  case False
  then have "Index S ''s/'' \<noteq> 0" by (simp add: Index_zero_iff)
  then show ?thesis using assms(1) by (simp add: newDNSProcessor_def Let_def)
next
  case True
  then obtain r where S: "S = ''s/'' @ r" by (auto simp: prefix_def)
  with assms(2) True have "CHR ''/'' \<notin> set r" by simp
  then have "LastIndex r ''/'' = - 1" by (rule LastIndex_absent)
  then have "LastIndex S ''/'' = 1" using S by (simp add: Let_def)
  moreover have "Index S ''s/'' = 0" using True by (simp add: Index_zero_iff)
  ultimately show ?thesis using assms(1) by (simp add: newDNSProcessor_def Let_def)
qed


lemma newDNSProcessor_slices_in_range:
  assumes "Index S ''s/'' = 0" and "LastIndex S ''/'' > Index S ''s/'' + 1"
  shows "0 \<le> Index S ''s/'' + 2 \<and> Index S ''s/'' + 2 \<le> LastIndex S ''/''
         \<and> LastIndex S ''/'' + 1 \<le> int (length S)"
  using assms LastIndex_bound [of S "CHR ''/''"] by simp

text \<open>
  C7. Constructing the name transformer from a configuration string: the empty string
  gives the transformer without a pattern; a string \<^verbatim>\<open>s/\<close>\<open>p\<close>\<^verbatim>\<open>/\<close>\<open>t\<close>, where \<open>t\<close> holds
  no slash (so that its slash is the last one), compiles the pattern \<open>p\<close> and keeps the
  template \<open>t\<close>; every other non-empty string is compiled whole, with the template
  \<^verbatim>\<open>$1$2$3$4$5\<close>. (The construction panics where the pattern does not compile.)
\<close>

theorem newDNSProcessor_forms:
  "newDNSProcessor compile [] = Inr \<lparr>rePattern = None, template = []\<rparr>
   \<and> (CHR ''/'' \<notin> set t \<longrightarrow>
        newDNSProcessor compile (''s/'' @ p @ ''/'' @ t) =
          (case compile p of None \<Rightarrow> Inl PanicMustCompile
           | Some rx \<Rightarrow> Inr \<lparr>rePattern = Some rx, template = t\<rparr>))
   \<and> (S \<noteq> [] \<and> \<not> (prefix ''s/'' S \<and> CHR ''/'' \<in> set (drop 2 S)) \<longrightarrow>
        newDNSProcessor compile S =
          (case compile S of None \<Rightarrow> Inl PanicMustCompile
           | Some rx \<Rightarrow> Inr \<lparr>rePattern = Some rx, template = ''$1$2$3$4$5''\<rparr>))"
proof -
  have "newDNSProcessor compile [] = Inr \<lparr>rePattern = None, template = []\<rparr>"
    by (simp add: newDNSProcessor_def)
  then show ?thesis
    using newDNSProcessor_sed [of t compile p] newDNSProcessor_plain [of S compile]
    by blast
qed

theorem newDNSProcessor_forms_witness:
  "newDNSProcessor compile_char [] = Inr \<lparr>rePattern = None, template = []\<rparr>
   \<and> CHR ''/'' \<notin> set ''x$0''
   \<and> newDNSProcessor compile_char ''s/0/x$0'' =
         Inr \<lparr>rePattern = Some (literal_char CHR ''0''), template = ''x$0''\<rparr>
   \<and> \<not> (prefix ''s/'' ''0'' \<and> CHR ''/'' \<in> set (drop 2 ''0''))
   \<and> newDNSProcessor compile_char ''0'' =
         Inr \<lparr>rePattern = Some (literal_char CHR ''0''), template = ''$1$2$3$4$5''\<rparr>"
  using newDNSProcessor_forms [of compile_char "''x$0''" "''0''" "''0''"]
  by (simp add: compile_char_def is_name_char_def is_digit_def)


lemma expand_append: "expand re dst t src m = dst @ expand re [] t src m"
proof (induction "length t" arbitrary: t dst rule: less_induct)
  case less
  show ?case
  proof (cases "CHR ''$'' \<in> set t")
    case False
    then show ?thesis by (simp add: expand.simps)
  next
    case True
    define before where "before = takeWhile (\<lambda>c. c \<noteq> CHR ''$'') t"
    define after where "after = tl (dropWhile (\<lambda>c. c \<noteq> CHR ''$'') t)"
    have la: "length after < length t"
      unfolding after_def using True by (rule after_dollar_length)
    have unf: "expand re d t src m =
        (if after \<noteq> [] \<and> hd after = CHR ''$''
         then expand re (d @ before @ ''$'') (tl after) src m
         else (case extract_var after of
                 None \<Rightarrow> expand re (d @ before @ ''$'') after src m
               | Some (name, num, rest) \<Rightarrow>
                   expand re (d @ before @ variable_text re name num src m) rest src m))" for d
      unfolding before_def after_def
      by (subst expand.simps) (use True in \<open>simp add: Let_def\<close>)
    show ?thesis
    proof (cases "after \<noteq> [] \<and> hd after = CHR ''$''")
      case True
      then have "length (tl after) < length t" using la by (cases after) auto
      from less [OF this] have ih: "expand re d (tl after) src m = d @ expand re [] (tl after) src m" for d .
      show ?thesis
        using True by (simp add: unf ih [of "dst @ before @ ''$''"] ih [of "before @ ''$''"])
    next
      case False
      then have nd: "(after \<noteq> [] \<and> hd after = CHR ''$'') = False" by simp
      show ?thesis
      proof (cases "extract_var after")
        case None
        from less [OF la] have ih: "expand re d after src m = d @ expand re [] after src m" for d .
        show ?thesis
          using None by (simp add: unf nd ih [of "dst @ before @ ''$''"] ih [of "before @ ''$''"])
      next
        case (Some x)
        obtain name num rest where x: "x = (name, num, rest)" by (cases x) auto
        have "length rest \<le> length after"
          using Some x extract_rest_length by simp
        then have "length rest < length t" using la by simp
        from less [OF this] have ih: "expand re d rest src m = d @ expand re [] rest src m" for d .
        show ?thesis
          using Some x
          by (simp add: unf nd ih [of "dst @ before @ variable_text re name num src m"]
                ih [of "before @ variable_text re name num src m"])
      qed
    qed
  qed
qed

lemma foldl_expand:
  "foldl (\<lambda>(result, expanded) sm. (ExpandString re result t name sm, True)) (acc, b) ms =
     (acc @ concat (map (ExpandString re [] t name) ms), b \<or> ms \<noteq> [])"
proof (induction ms arbitrary: acc b)
  case Nil
  then show ?case by simp
next
  case (Cons sm ms)
  have "ExpandString re acc t name sm = acc @ ExpandString re [] t name sm"
    unfolding ExpandString_def by (rule expand_append)
  then show ?case by (simp add: Cons)
qed

text \<open>
  C4. Applying the transformer to a name: without a pattern the name is returned; when the
  pattern has no match in the name the name is returned; otherwise the result is the
  concatenation, in the order of the matches, of the template expanded against each match,
  and nothing else of the name.
\<close>

theorem transform_cases:
  "transform p N =
     (case rePattern p of
        None \<Rightarrow> N
      | Some re \<Rightarrow>
          (if FindAllStringSubmatchIndex re N = [] then N
           else concat (map (ExpandString re [] (template p) N) (FindAllStringSubmatchIndex re N))))"
  by (simp add: transform_def foldl_expand split: option.splits)


theorem transform_cases_witness:
  "transform \<lparr>rePattern = None, template = ''x''\<rparr> ''10.0.0.1'' = ''10.0.0.1''
   \<and> transform \<lparr>rePattern = Some (literal_char CHR ''7''), template = ''<$0>''\<rparr> ''10.0.0.1''
       = ''10.0.0.1''
   \<and> transform \<lparr>rePattern = Some (literal_char CHR ''0''), template = ''<$0>''\<rparr> ''10.0.0.1''
       = ''<0><0><0>''"
  using transform_cases [of "\<lparr>rePattern = None, template = ''x''\<rparr>" "''10.0.0.1''"]
    transform_cases [of "\<lparr>rePattern = Some (literal_char CHR ''7''), template = ''<$0>''\<rparr>" "''10.0.0.1''"]
    transform_cases [of "\<lparr>rePattern = Some (literal_char CHR ''0''), template = ''<$0>''\<rparr>" "''10.0.0.1''"]
  by (simp add: literal_char_def ExpandString_def expand.simps extract_var_def Let_def
      is_name_char_def is_digit_def variable_text_def group_text_def substring_def)

subsection \<open>The completion counter\<close>
lemma step_Increment:
  "step c Increment = Some c' \<Longrightarrow>
   \<exists>j js. sending c = None \<and> todo c = j # js \<and> c' = increment (c\<lparr>todo := js, sending := Some j\<rparr>)"
  by (cases "sending c"; cases "todo c"; simp)

lemma step_Send:
  "step c Send = Some c' \<Longrightarrow>
   \<exists>j. sending c = Some j \<and>
     c' = c\<lparr>sending := None, inflight := inflight c @ [j], submitted := submitted c @ [j]\<rparr>"
  by (cases "sending c"; simp)

lemma step_Finish:
  "step c (Finish k name) = Some c' \<Longrightarrow>
   k < length (inflight c) \<and>
   c' = decrement (c\<lparr>inflight := take k (inflight c) @ drop (Suc k) (inflight c),
                      tags := AddTag (tags c) (dstTag (inflight c ! k)) name\<rparr>)"
  by (cases "k < length (inflight c)"; simp)

lemma step_FinalDecrement:
  "step c FinalDecrement = Some c' \<Longrightarrow>
   guard c \<and> todo c = [] \<and> sending c = None \<and> c' = decrement (c\<lparr>guard := False\<rparr>)"
  by (cases "guard c \<and> todo c = [] \<and> sending c = None"; simp)


lemma step_inv:
  assumes "step c e = Some c'" and "call_inv c"
  shows "call_inv c'"
proof (cases e)
  case Increment
  with assms(1) obtain j js where "sending c = None" "todo c = j # js"
    and c': "c' = increment (c\<lparr>todo := js, sending := Some j\<rparr>)"
    using step_Increment by blast
  with assms(2) show ?thesis
    by (simp add: call_inv_def increment_def)
next
  case Send
  with assms(1) obtain j where "sending c = Some j"
    and c': "c' = c\<lparr>sending := None, inflight := inflight c @ [j], submitted := submitted c @ [j]\<rparr>"
    using step_Send by blast
  with assms(2) show ?thesis
    by (simp add: call_inv_def)
next
  case (Finish k name)
  with assms(1) have k: "k < length (inflight c)"
    and c': "c' = decrement (c\<lparr>inflight := take k (inflight c) @ drop (Suc k) (inflight c),
                      tags := AddTag (tags c) (dstTag (inflight c ! k)) name\<rparr>)"
    using step_Finish by blast+
  from k have l: "int (length (take k (inflight c) @ drop (Suc k) (inflight c))) =
      int (length (inflight c)) - 1"
    by simp
  from k have pos: "0 < int (length (inflight c))" by (cases "inflight c") simp_all
  from assms(2) have cnt: "counter c = (if guard c then 1 else 0) + (if sending c = None then 0 else 1)
                  + int (length (inflight c))"
    and g: "\<not> guard c \<longrightarrow> todo c = [] \<and> sending c = None"
    by (simp_all add: call_inv_def)
  from cnt pos have nz: "counter c \<noteq> 0" by (simp split: if_splits)
  with assms(2) have comp: "completed c = []" by (simp add: call_inv_def)
  show ?thesis
    unfolding c' call_inv_def decrement_def Let_def
    using cnt g comp l by (simp split: if_splits)
next
  case FinalDecrement
  with assms(1) have gd: "guard c" "todo c = []" "sending c = None"
    and c': "c' = decrement (c\<lparr>guard := False\<rparr>)"
    using step_FinalDecrement by blast+
  from assms(2) gd have cnt: "counter c = 1 + int (length (inflight c))"
    by (simp add: call_inv_def)
  then have nz: "counter c \<noteq> 0" by simp
  with assms(2) have comp: "completed c = []" by (simp add: call_inv_def)
  show ?thesis
    unfolding c' call_inv_def decrement_def Let_def
    using cnt gd comp by simp
qed


lemma step_remaining:
  assumes "step c e = Some c'"
  shows "Suc (remaining c') = remaining c"
proof (cases e)
  case Increment
  with assms obtain j js where "sending c = None" "todo c = j # js"
    and c': "c' = increment (c\<lparr>todo := js, sending := Some j\<rparr>)"
    using step_Increment by blast
  then show ?thesis by (simp add: remaining_def increment_def)
next
  case Send
  with assms obtain j where "sending c = Some j"
    and c': "c' = c\<lparr>sending := None, inflight := inflight c @ [j], submitted := submitted c @ [j]\<rparr>"
    using step_Send by blast
  then show ?thesis by (simp add: remaining_def)
next
  case (Finish k name)
  with assms have k: "k < length (inflight c)"
    and c': "c' = decrement (c\<lparr>inflight := take k (inflight c) @ drop (Suc k) (inflight c),
                      tags := AddTag (tags c) (dstTag (inflight c ! k)) name\<rparr>)"
    using step_Finish by blast+
  from k have "Suc (length (take k (inflight c) @ drop (Suc k) (inflight c))) = length (inflight c)"
    by simp
  then show ?thesis
    unfolding c' remaining_def decrement_def Let_def by simp
next
  case FinalDecrement
  with assms have gd: "guard c" "todo c = []" "sending c = None"
    and c': "c' = decrement (c\<lparr>guard := False\<rparr>)"
    using step_FinalDecrement by blast+
  then show ?thesis
    unfolding c' remaining_def decrement_def Let_def by simp
qed

lemma step_unreported:
  assumes "step c e = Some c'"
  shows "unreported c' + (if is_Finish e then 1 else 0) = unreported c"
proof (cases e)
  case Increment
  with assms obtain j js where "sending c = None" "todo c = j # js"
    and c': "c' = increment (c\<lparr>todo := js, sending := Some j\<rparr>)"
    using step_Increment by blast
  with Increment show ?thesis by (simp add: unreported_def increment_def)
next
  case Send
  with assms obtain j where "sending c = Some j"
    and c': "c' = c\<lparr>sending := None, inflight := inflight c @ [j], submitted := submitted c @ [j]\<rparr>"
    using step_Send by blast
  with Send show ?thesis by (simp add: unreported_def)
next
  case (Finish k name)
  with assms have k: "k < length (inflight c)"
    and c': "c' = decrement (c\<lparr>inflight := take k (inflight c) @ drop (Suc k) (inflight c),
                      tags := AddTag (tags c) (dstTag (inflight c ! k)) name\<rparr>)"
    using step_Finish by blast+
  define rest where "rest = take k (inflight c) @ drop (Suc k) (inflight c)"
  from k have len: "length (inflight c) = Suc (length rest)"
    unfolding rest_def by simp
  from c' have c'': "c' = decrement (c\<lparr>inflight := rest,
                      tags := AddTag (tags c) (dstTag (inflight c ! k)) name\<rparr>)"
    unfolding rest_def by simp
  from Finish len show ?thesis
    unfolding c'' unreported_def decrement_def Let_def by simp
next
  case FinalDecrement
  with assms have gd: "guard c" "todo c = []" "sending c = None"
    and c': "c' = decrement (c\<lparr>guard := False\<rparr>)"
    using step_FinalDecrement by blast+
  with FinalDecrement show ?thesis
    unfolding c' unreported_def decrement_def Let_def by simp
qed


lemma run_inv:
  "run c es = Some c' \<Longrightarrow> call_inv c \<Longrightarrow> call_inv c'"
proof (induction es arbitrary: c)
  case Nil
  then show ?case by simp
next
  case (Cons e es)
  then obtain c1 where s: "step c e = Some c1" and r: "run c1 es = Some c'"
    by (cases "step c e") simp_all
  from step_inv [OF s Cons.prems(2)] Cons.IH [OF r] show ?case by simp
qed

lemma run_remaining:
  "run c es = Some c' \<Longrightarrow> length es + remaining c' = remaining c"
proof (induction es arbitrary: c)
  case Nil
  then show ?case by simp
next
  case (Cons e es)
  then obtain c1 where s: "step c e = Some c1" and r: "run c1 es = Some c'"
    by (cases "step c e") simp_all
  from Cons.IH [OF r] step_remaining [OF s] show ?case by simp
qed

lemma run_unreported:
  "run c es = Some c' \<Longrightarrow> unreported c' + length (filter is_Finish es) = unreported c"
proof (induction es arbitrary: c)
  case Nil
  then show ?case by simp
next
  case (Cons e es)
  then obtain c1 where s: "step c e = Some c1" and r: "run c1 es = Some c'"
    by (cases "step c e") simp_all
  from Cons.IH [OF r] step_unreported [OF s] show ?case by (simp split: if_splits)
qed

lemma inv_all_reported: "call_inv c \<Longrightarrow> all_reported c \<longleftrightarrow> counter c = 0"
  unfolding call_inv_def all_reported_def
  by (cases "guard c"; cases "sending c"; cases "inflight c"; simp)

lemma progress:
  assumes "\<not> all_reported c"
  shows "\<exists>e c'. step c e = Some c'"
proof (cases "sending c")
  case (Some j)
  then have "step c Send \<noteq> None" by simp
  then show ?thesis by blast
next
  case None
  note s = this
  show ?thesis
  proof (cases "todo c")
    case (Cons j js)
    with s have "step c Increment \<noteq> None" by simp
    then show ?thesis by blast
  next
    case Nil
    show ?thesis
    proof (cases "guard c")
      case True
      with s Nil have "step c FinalDecrement \<noteq> None" by simp
      then show ?thesis by blast
    next
      case False
      with s Nil assms have "inflight c \<noteq> []" by (simp add: all_reported_def)
      then have "step c (Finish 0 []) \<noteq> None" by simp
      then show ?thesis by blast
    qed
  qed
qed

lemma run_no_jobs:
  assumes "run c es = Some c'" and "todo c = []" and "sending c = None" and "inflight c = []"
    and "guard c"
  shows "(es = [] \<and> c' = c) \<or> (es = [FinalDecrement] \<and> c' = decrement (c\<lparr>guard := False\<rparr>))"
proof (cases es)
  case Nil
  with assms show ?thesis by simp
next
  case (Cons e es')
  with assms(1) obtain c1 where s: "step c e = Some c1" and r: "run c1 es' = Some c'"
    by (cases "step c e") simp_all
  from s assms(2-5) have e: "e = FinalDecrement"
    by (cases e) simp_all
  with s have c1: "c1 = decrement (c\<lparr>guard := False\<rparr>)"
    using step_FinalDecrement by blast
  have n: "step c1 e' = None" for e'
    unfolding c1 decrement_def Let_def using assms(2-5) by (cases e') simp_all
  from r n have "es' = []" by (cases es') simp_all
  with r e c1 Cons show ?thesis by simp
qed


lemma length_dnsResolve: "length (dnsResolve r m s d) \<le> 1"
  by (simp add: dnsResolve_def split: option.splits)

lemma length_ifaceResolve: "length (ifaceResolve r m s d a) \<le> 1"
  by (simp add: ifaceResolve_def split: option.splits)

lemma length_resolve_jobs: "length (resolve_jobs r m) \<le> 6"
proof -
  have d: "length (dnsResolve r m ''agent_ip'' ''host'') \<le> 1"
    "length (dnsResolve r m ''src_ip'' ''src_host'') \<le> 1"
    "length (dnsResolve r m ''dst_ip'' ''dst_host'') \<le> 1"
    by (rule length_dnsResolve)+
  have i: "length (ifaceResolve r m ''source_id_index'' ''source_id_name'' a) \<le> 1"
    "length (ifaceResolve r m ''netif_index_out'' ''netif_name_out'' a) \<le> 1"
    "length (ifaceResolve r m ''netif_index_in'' ''netif_name_in'' a) \<le> 1" for a
    by (rule length_ifaceResolve)+
  show ?thesis
  proof (cases "GetTag m ''agent_ip''")
    case None
    with d show ?thesis unfolding resolve_jobs_def by simp
  next
    case (Some a)
    with d i [of a] show ?thesis unfolding resolve_jobs_def by simp
  qed
qed

lemma call_inv_resolve: "call_inv (resolve r m)"
  by (simp add: call_inv_def resolve_def)

lemma remaining_resolve: "remaining (resolve r m) = 3 * length (resolve_jobs r m) + 1"
  by (simp add: remaining_def resolve_def)

lemma unreported_resolve: "unreported (resolve r m) = length (resolve_jobs r m)"
  by (simp add: unreported_def resolve_def)

lemma inv_completed:
  "call_inv c \<Longrightarrow> (completed c \<noteq> [] \<longleftrightarrow> all_reported c) \<and> length (completed c) \<le> 1
     \<and> (completed c \<noteq> [] \<longrightarrow> completed c = [tags c])"
  using inv_all_reported [of c] by (cases "counter c = 0") (simp_all add: call_inv_def)

lemma all_reported_unreported: "all_reported c \<Longrightarrow> unreported c = 0"
  by (simp add: all_reported_def unreported_def)

text \<open>
  C1. One call of \<^verbatim>\<open>resolve\<close> dispatches at most six jobs. However its steps and those
  of its jobs interleave, and in whatever order the jobs finish: the callback has run at most
  once; it has run if and only if every job has been dispatched and has reported and the
  last decrement of \<^verbatim>\<open>resolve\<close> is done, and then it has run exactly once, on the record,
  after as many reports as there are jobs; until then some step can be taken, and no run is
  longer than three steps for each job and one more; without any job, the callback is run by
  the last decrement of \<^verbatim>\<open>resolve\<close> itself.
\<close>

theorem resolve_completes_once:
  "run (resolve r m) es = Some c \<Longrightarrow>
     length (resolve_jobs r m) \<le> 6
     \<and> length (completed c) \<le> 1
     \<and> (completed c \<noteq> [] \<longleftrightarrow> all_reported c)
     \<and> (all_reported c \<longrightarrow>
          completed c = [tags c]
          \<and> length (filter is_Finish es) = length (resolve_jobs r m))
     \<and> (\<not> all_reported c \<longrightarrow> (\<exists>e c'. step c e = Some c'))
     \<and> length es \<le> 3 * length (resolve_jobs r m) + 1
     \<and> (resolve_jobs r m = [] \<and> all_reported c \<longrightarrow> es = [FinalDecrement] \<and> completed c = [m])"
proof -
  assume run: "run (resolve r m) es = Some c"
  have inv: "call_inv c" using run call_inv_resolve by (rule run_inv)
  note comp = inv_completed [OF inv]
  have rem: "length es + remaining c = 3 * length (resolve_jobs r m) + 1"
    using run_remaining [OF run] by (simp add: remaining_resolve)
  have unr: "unreported c + length (filter is_Finish es) = length (resolve_jobs r m)"
    using run_unreported [OF run] by (simp add: unreported_resolve)
  have fin: "all_reported c \<longrightarrow> length (filter is_Finish es) = length (resolve_jobs r m)"
    using unr all_reported_unreported [of c] by auto
  have none: "resolve_jobs r m = [] \<and> all_reported c \<longrightarrow> es = [FinalDecrement] \<and> completed c = [m]"
  proof
    assume a: "resolve_jobs r m = [] \<and> all_reported c"
    then have "todo (resolve r m) = []" "sending (resolve r m) = None"
      "inflight (resolve r m) = []" "guard (resolve r m)"
      by (simp_all add: resolve_def)
    from run_no_jobs [OF run this]
    have "(es = [] \<and> c = resolve r m) \<or>
          (es = [FinalDecrement] \<and> c = decrement (resolve r m\<lparr>guard := False\<rparr>))" .
    moreover have "\<not> all_reported (resolve r m)" by (simp add: all_reported_def resolve_def)
    moreover have "completed (decrement (resolve r m\<lparr>guard := False\<rparr>)) = [m]"
      by (simp add: decrement_def resolve_def)
    ultimately show "es = [FinalDecrement] \<and> completed c = [m]" using a by auto
  qed
  have len: "length es \<le> 3 * length (resolve_jobs r m) + 1"
    using rem by simp
  have prog: "\<not> all_reported c \<longrightarrow> (\<exists>e c'. step c e = Some c')"
    using progress by blast
  have allr: "all_reported c \<longrightarrow>
      completed c = [tags c] \<and> length (filter is_Finish es) = length (resolve_jobs r m)"
    using comp fin by blast
  from comp have once: "length (completed c) \<le> 1"
    and iff: "completed c \<noteq> [] \<longleftrightarrow> all_reported c"
    by blast+
  from length_resolve_jobs [of r m] once iff allr prog len none show ?thesis
    by (intro conjI)
qed


theorem resolve_completes_once_witness:
  "\<exists>c. run (resolve example_resolver example_metric) example_schedule = Some c
       \<and> length (resolve_jobs example_resolver example_metric) = 2
       \<and> all_reported c \<and> length (completed c) = 1
       \<and> length (filter is_Finish example_schedule) = 2"
proof -
  have j: "resolve_jobs example_resolver example_metric =
      [DNSJob ''10.0.0.1'' ''host'', IFaceJob ''7'' ''10.0.0.1'' ''netif_name_in'']"
    by (simp add: resolve_jobs_def dnsResolve_def ifaceResolve_def GetTag_def
        example_resolver_def example_metric_def)
  have "\<exists>c. run (resolve example_resolver example_metric) example_schedule = Some c
      \<and> all_reported c"
    by (simp add: resolve_def j example_schedule_def increment_def decrement_def
        all_reported_def)
  then obtain c where c: "run (resolve example_resolver example_metric) example_schedule = Some c"
    and a: "all_reported c"
    by blast
  from resolve_completes_once [OF c] a j c show ?thesis
    by (simp add: example_schedule_def)
qed

text \<open>
  C5. For a record without any of the six source tags, \<^verbatim>\<open>resolve\<close> dispatches no job:
  its only step is its last decrement, which runs the callback once on the record as it was
  passed in, and nothing is ever sent on the channel.
\<close>

theorem resolve_without_source_tags:
  "no_source_tag m \<Longrightarrow>
     resolve_jobs r m = []
     \<and> (\<exists>c. run (resolve r m) [FinalDecrement] = Some c \<and> all_reported c
              \<and> completed c = [m] \<and> submitted c = [])
     \<and> (\<forall>es c. run (resolve r m) es = Some c \<longrightarrow>
           submitted c = [] \<and> tags c = m
           \<and> (es = [] \<and> completed c = [] \<or> es = [FinalDecrement] \<and> completed c = [m]))"
proof -
  assume "no_source_tag m"
  then have j: "resolve_jobs r m = []"
    by (simp add: no_source_tag_def source_tags_def resolve_jobs_def dnsResolve_def
        ifaceResolve_def)
  have start: "todo (resolve r m) = []" "sending (resolve r m) = None"
    "inflight (resolve r m) = []" "guard (resolve r m)"
    by (simp_all add: resolve_def j)
  have one: "run (resolve r m) [FinalDecrement] = Some (decrement (resolve r m\<lparr>guard := False\<rparr>))"
    using start by simp
  have fin: "all_reported (decrement (resolve r m\<lparr>guard := False\<rparr>))"
    "completed (decrement (resolve r m\<lparr>guard := False\<rparr>)) = [m]"
    "submitted (decrement (resolve r m\<lparr>guard := False\<rparr>)) = []"
    "tags (decrement (resolve r m\<lparr>guard := False\<rparr>)) = m"
    by (simp_all add: decrement_def resolve_def j all_reported_def)
  have ini: "submitted (resolve r m) = []" "tags (resolve r m) = m" "completed (resolve r m) = []"
    by (simp_all add: resolve_def)
  have all: "submitted c = [] \<and> tags c = m
       \<and> (es = [] \<and> completed c = [] \<or> es = [FinalDecrement] \<and> completed c = [m])"
    if "run (resolve r m) es = Some c" for es c
    using run_no_jobs [OF that start] fin ini by auto
  from j one fin all show ?thesis by blast
qed

theorem resolve_without_source_tags_witness:
  "no_source_tag [''host'' \<mapsto> ''h'']
   \<and> resolve_jobs example_resolver [''host'' \<mapsto> ''h''] = []
   \<and> (\<exists>c. run (resolve example_resolver [''host'' \<mapsto> ''h'']) [FinalDecrement] = Some c
            \<and> completed c = [[''host'' \<mapsto> ''h'']] \<and> submitted c = [])"
proof -
  have n: "no_source_tag [''host'' \<mapsto> ''h'']"
    by (simp add: no_source_tag_def source_tags_def GetTag_def)
  from resolve_without_source_tags [OF n, of example_resolver] n show ?thesis
    by blast
qed

subsection \<open>The caches\<close>

lemma cache_get_nonempty: "cache_get c key \<noteq> [] \<Longrightarrow> c key = Some (cache_get c key)"
  by (simp add: cache_get_def split: option.splits)

lemma resolveDNS_hit:
  "dnsCache st ip = Some v \<Longrightarrow> v \<noteq> [] \<Longrightarrow> resolveDNS r st ip = (v, st)"
  by (simp add: resolveDNS_def cache_get_def)

lemma resolveDNS_miss:
  "cache_get (dnsCache st) ip = [] \<Longrightarrow>
   resolveDNS r st ip =
     (transform (dnsp r) (ipToFqdnFn r (length (dnsLookups st)) ip),
      st\<lparr>dnsCache := (dnsCache st)(ip \<mapsto> transform (dnsp r) (ipToFqdnFn r (length (dnsLookups st)) ip)),
         dnsLookups := dnsLookups st @ [ip]\<rparr>)"
  by (simp add: resolveDNS_def Let_def cache_set_def)


lemma resolveIFace_hit:
  "ifaceCache st (ifaceKey a i) = Some v \<Longrightarrow> v \<noteq> [] \<Longrightarrow>
   resolveIFace r st i a = Inr (v, st\<lparr>ops := ops st + 1\<rparr>)"
  by (simp add: resolveIFace_def cache_get_def)

lemma resolveIFace_miss:
  "cache_get (ifaceCache st) (ifaceKey a i) = [] \<Longrightarrow>
   resolveIFace r st i a =
     (case ifIndexToIfNameFn r (length (ifaceLookups st)) (snmpDefault st) (ops st + 1)
             (snmpCommunity r) a i of
        Inl p \<Rightarrow> Inl p
      | Inr (name, d) \<Rightarrow>
          Inr (name, st\<lparr>ops := ops st + 1,
                          ifaceCache := (ifaceCache st)(ifaceKey a i \<mapsto> name),
                          snmpDefault := d,
                          ifaceLookups := ifaceLookups st @ [(a, i)]\<rparr>))"
  by (simp add: resolveIFace_def Let_def cache_set_def split: sum.splits)

lemma resolveIFace_stores:
  assumes "resolveIFace r st i a = Inr (v, st1)" and "v \<noteq> []"
  shows "ifaceCache st1 (ifaceKey a i) = Some v"
proof (cases "cache_get (ifaceCache st) (ifaceKey a i) = []")
  case True
  from assms(1) show ?thesis
    unfolding resolveIFace_miss [OF True] by (auto split: sum.splits)
next
  case False
  then have h: "ifaceCache st (ifaceKey a i) = Some (cache_get (ifaceCache st) (ifaceKey a i))"
    by (rule cache_get_nonempty)
  from resolveIFace_hit [OF h False, of r] assms(1)
  have "v = cache_get (ifaceCache st) (ifaceKey a i)" and "st1 = st\<lparr>ops := ops st + 1\<rparr>"
    by simp_all
  with h show ?thesis by simp
qed





text \<open>
  C9, as amended. Two different pairs of an agent address and an interface index can have
  the same key. When the cache holds a non-empty value under the key of one pair, the
  resolution of any pair with the same key returns that value and walks no table.
\<close>

theorem ifaceKey_collision:
  "(\<exists>a i a' i'. (a, i) \<noteq> (a', i') \<and> ifaceKey a i = ifaceKey a' i')
   \<and> (ifaceKey a i = ifaceKey a' i' \<and> ifaceCache st (ifaceKey a i) = Some v \<and> v \<noteq> [] \<longrightarrow>
        resolveIFace r st i' a' = Inr (v, st\<lparr>ops := ops st + 1\<rparr>))
   \<and> (ifaceKey a i = ifaceKey a' i' \<and> resolveIFace r st i a = Inr (v, st1) \<and> v \<noteq> [] \<longrightarrow>
        resolveIFace r st1 i' a' = Inr (v, st1\<lparr>ops := ops st1 + 1\<rparr>))"
proof -
  have "(''a-b'', ''c'') \<noteq> (''a'', ''b-c'') \<and> ifaceKey ''a-b'' ''c'' = ifaceKey ''a'' ''b-c''"
    by (simp add: ifaceKey_def)
  then have ex: "\<exists>a i a' i'. (a, i) \<noteq> (a', i') \<and> ifaceKey a i = ifaceKey a' i'"
    by blast
  have hit: "resolveIFace r s i' a' = Inr (v, s\<lparr>ops := ops s + 1\<rparr>)"
    if "ifaceKey a i = ifaceKey a' i'" "ifaceCache s (ifaceKey a i) = Some v" "v \<noteq> []" for s
    using that resolveIFace_hit [of s a' i' v r] by simp
  from ex hit [of st] hit [of st1] resolveIFace_stores [of r st i a v st1] show ?thesis
    by blast
qed

theorem ifaceKey_collision_witness:
  "(''10.0.0.1-2'', ''7'') \<noteq> (''10.0.0.1'', ''2-7'')
   \<and> ifaceKey ''10.0.0.1-2'' ''7'' = ifaceKey ''10.0.0.1'' ''2-7''
   \<and> resolveIFace example_resolver (newState default_client) ''7'' ''10.0.0.1-2'' =
       Inr (''eth7'',
            state_of Map.empty [''10.0.0.1-2-7'' \<mapsto> ''eth7''] 1
              (client_for default_client [] ''10.0.0.1-2'') [] [(''10.0.0.1-2'', ''7'')])
   \<and> resolveIFace example_resolver
         (state_of Map.empty [''10.0.0.1-2-7'' \<mapsto> ''eth7''] 1
            (client_for default_client [] ''10.0.0.1-2'') [] [(''10.0.0.1-2'', ''7'')])
         ''2-7'' ''10.0.0.1'' =
       Inr (''eth7'',
            state_of Map.empty [''10.0.0.1-2-7'' \<mapsto> ''eth7''] 2
              (client_for default_client [] ''10.0.0.1-2'') [] [(''10.0.0.1-2'', ''7'')])"
proof -
  let ?s = "state_of Map.empty [''10.0.0.1-2-7'' \<mapsto> ''eth7''] 1
              (client_for default_client [] ''10.0.0.1-2'') [] [(''10.0.0.1-2'', ''7'')]"
  have k: "ifaceKey ''10.0.0.1-2'' ''7'' = ifaceKey ''10.0.0.1'' ''2-7''"
    by (simp add: ifaceKey_def)
  have f: "resolveIFace example_resolver (newState default_client) ''7'' ''10.0.0.1-2'' =
      Inr (''eth7'', ?s)"
    by (simp add: Let_def resolveIFace_def newState_def newCache_def cache_get_def cache_set_def
        example_resolver_def ifIndexToIfName_def walk_eth7_def walkFn_def ifaceKey_def
        state_of_def client_for_def default_client_def)
  have o: "?s\<lparr>ops := ops ?s + 1\<rparr> =
      state_of Map.empty [''10.0.0.1-2-7'' \<mapsto> ''eth7''] 2
        (client_for default_client [] ''10.0.0.1-2'') [] [(''10.0.0.1-2'', ''7'')]"
    by (simp add: state_of_def)
  from ifaceKey_collision [of "''10.0.0.1-2''" "''7''" "''10.0.0.1''" "''2-7''"
      "newState default_client" "''eth7''" example_resolver ?s] k f
  have "resolveIFace example_resolver ?s ''2-7'' ''10.0.0.1'' =
      Inr (''eth7'', ?s\<lparr>ops := ops ?s + 1\<rparr>)"
    by simp
  with o k f show ?thesis by simp
qed

text \<open>
  C9 fails as stated: the first pair is resolved to the empty name of the interface and is
  cached; resolving the second pair, which has the same key, then walks the agent's table
  itself and returns its own result.
\<close>

theorem ifaceKey_collision_counterexample:
  "ifaceKey ''10.0.0.1-2'' ''7'' = ifaceKey ''10.0.0.1'' ''2-7''
   \<and> resolveIFace unnamed_resolver (newState default_client) ''7'' ''10.0.0.1-2'' =
       Inr ([], state_of Map.empty [''10.0.0.1-2-7'' \<mapsto> []] 1
                  (client_for default_client [] ''10.0.0.1-2'') [] [(''10.0.0.1-2'', ''7'')])
   \<and> resolveIFace unnamed_resolver
         (state_of Map.empty [''10.0.0.1-2-7'' \<mapsto> []] 1
            (client_for default_client [] ''10.0.0.1-2'') [] [(''10.0.0.1-2'', ''7'')])
         ''2-7'' ''10.0.0.1'' =
       Inr (''2-7'',
            state_of Map.empty [''10.0.0.1-2-7'' \<mapsto> ''2-7''] 2
              (client_for default_client [] ''10.0.0.1'') []
              [(''10.0.0.1-2'', ''7''), (''10.0.0.1'', ''2-7'')])"
  by (simp add: Let_def resolveIFace_def newState_def newCache_def cache_get_def cache_set_def
      unnamed_resolver_def example_resolver_def ifIndexToIfName_def walk_unnamed_def walkFn_def
      ifaceKey_def state_of_def client_for_def default_client_def)

subsection \<open>The lookup backends\<close>

lemma ipToFqdn_fallback:
  "LookupAddr ip = Inl e \<or> LookupAddr ip = Inr [] \<Longrightarrow> ipToFqdn LookupAddr ip = ip"
  by (auto simp: ipToFqdn_def)

lemma ipToFqdn_first: "LookupAddr ip = Inr (n # ns) \<Longrightarrow> ipToFqdn LookupAddr ip = n"
  by (simp add: ipToFqdn_def)

lemma transform_no_pattern: "rePattern p = None \<Longrightarrow> transform p name = name"
  by (simp add: transform_def)

lemma transform_no_match:
  "rePattern p = Some re \<Longrightarrow> FindAllStringSubmatchIndex re name = [] \<Longrightarrow> transform p name = name"
  by (simp add: transform_def)

text \<open>
  C3, as amended. On a cache miss, with the backend \<^verbatim>\<open>ipToFqdn\<close>: when the reverse lookup
  fails or returns no names, \<^verbatim>\<open>ipToFqdn\<close> returns the address itself, and the value
  resolved and stored for the address is the name transformer applied to the address, which
  is the address itself when no pattern is configured or the pattern has no match in it; when
  the lookup returns names, the value resolved and stored is the transformer applied to the
  first one.
\<close>

theorem dns_fallback:
  "ipToFqdnFn r = (\<lambda>t. ipToFqdn (LookupAddr t)) \<Longrightarrow>
   cache_get (dnsCache st) ip = [] \<Longrightarrow>
     (LookupAddr (length (dnsLookups st)) ip = Inl e
        \<or> LookupAddr (length (dnsLookups st)) ip = Inr [] \<longrightarrow>
          ipToFqdn (LookupAddr (length (dnsLookups st))) ip = ip
          \<and> fst (resolveDNS r st ip) = transform (dnsp r) ip
          \<and> dnsCache (snd (resolveDNS r st ip)) ip = Some (transform (dnsp r) ip)
          \<and> (rePattern (dnsp r) = None \<longrightarrow> fst (resolveDNS r st ip) = ip)
          \<and> (\<forall>re. rePattern (dnsp r) = Some re \<and> FindAllStringSubmatchIndex re ip = [] \<longrightarrow>
                fst (resolveDNS r st ip) = ip))
     \<and> (LookupAddr (length (dnsLookups st)) ip = Inr (n # ns) \<longrightarrow>
          fst (resolveDNS r st ip) = transform (dnsp r) n
          \<and> dnsCache (snd (resolveDNS r st ip)) ip = Some (transform (dnsp r) n))"
proof -
  assume b: "ipToFqdnFn r = (\<lambda>t. ipToFqdn (LookupAddr t))"
    and m: "cache_get (dnsCache st) ip = []"
  let ?name = "ipToFqdn (LookupAddr (length (dnsLookups st))) ip"
  have res: "fst (resolveDNS r st ip) = transform (dnsp r) ?name"
    and cached: "dnsCache (snd (resolveDNS r st ip)) ip = Some (transform (dnsp r) ?name)"
    unfolding resolveDNS_miss [OF m] b by simp_all
  have fb: "?name = ip"
    if "LookupAddr (length (dnsLookups st)) ip = Inl e
        \<or> LookupAddr (length (dnsLookups st)) ip = Inr []"
    using that by (rule ipToFqdn_fallback)
  have fst: "?name = n" if "LookupAddr (length (dnsLookups st)) ip = Inr (n # ns)"
    using that by (rule ipToFqdn_first)
  from res cached fb fst transform_no_pattern [of "dnsp r" ip]
    transform_no_match [of "dnsp r" _ ip]
  show ?thesis by (auto simp del: fst_conv snd_conv)
qed

theorem dns_fallback_witness:
  "ipToFqdnFn example_resolver = (\<lambda>t. ipToFqdn (lookup_fails t))
   \<and> cache_get (dnsCache (newState default_client)) ''10.0.0.1'' = []
   \<and> lookup_fails (length (dnsLookups (newState default_client))) ''10.0.0.1'' = Inl LookupError
   \<and> rePattern (dnsp example_resolver) = None
   \<and> fst (resolveDNS example_resolver (newState default_client) ''10.0.0.1'') = ''10.0.0.1''
   \<and> dnsCache (snd (resolveDNS example_resolver (newState default_client) ''10.0.0.1''))
         ''10.0.0.1'' = Some ''10.0.0.1''"
proof -
  have b: "ipToFqdnFn example_resolver = (\<lambda>t. ipToFqdn (lookup_fails t))"
    by (simp add: example_resolver_def)
  have m: "cache_get (dnsCache (newState default_client)) ''10.0.0.1'' = []"
    by (simp add: newState_def newCache_def cache_get_def)
  have l: "lookup_fails (length (dnsLookups (newState default_client))) ''10.0.0.1'' = Inl LookupError"
    by (simp add: lookup_fails_def)
  have p: "rePattern (dnsp example_resolver) = None"
    by (simp add: example_resolver_def)
  have t: "transform (dnsp example_resolver) ''10.0.0.1'' = ''10.0.0.1''"
    using p by (rule transform_no_pattern)
  from dns_fallback [OF b m, of LookupError] l p t b m show ?thesis
    by simp
qed

text \<open>
  C3 fails as stated: the resolver is configured with the rewrite \<^verbatim>\<open>s/0/x\<close> and the reverse
  lookup of \<^verbatim>\<open>10.0.0.1\<close> fails. The transformer is applied to the fallback: the address
  resolves to \<^verbatim>\<open>xxx\<close>, and that is what the cache stores.
\<close>

theorem dns_fallback_counterexample:
  "newAsyncResolver compile_char lookup_fails walk_eth7 True ''s/0/x'' False [] =
     Inr rewriting_resolver
   \<and> lookup_fails 0 ''10.0.0.1'' = Inl LookupError
   \<and> resolveDNS rewriting_resolver (newState default_client) ''10.0.0.1'' =
       (''xxx'', state_of [''10.0.0.1'' \<mapsto> ''xxx''] Map.empty 0 default_client [''10.0.0.1''] [])"
proof -
  have c: "newDNSProcessor compile_char ''s/0/x'' =
      Inr \<lparr>rePattern = Some (literal_char CHR ''0''), template = ''x''\<rparr>"
    using newDNSProcessor_sed [of "''x''" compile_char "''0''"]
    by (simp add: compile_char_def is_name_char_def is_digit_def)
  have n: "newAsyncResolver compile_char lookup_fails walk_eth7 True ''s/0/x'' False [] =
     Inr rewriting_resolver"
    by (simp add: newAsyncResolver_def c rewriting_resolver_def)
  have t: "transform \<lparr>rePattern = Some (literal_char CHR ''0''), template = ''x''\<rparr> ''10.0.0.1''
      = ''xxx''"
    by (simp add: transform_def literal_char_def ExpandString_def expand.simps)
  have "resolveDNS rewriting_resolver (newState default_client) ''10.0.0.1'' =
       (''xxx'', state_of [''10.0.0.1'' \<mapsto> ''xxx''] Map.empty 0 default_client [''10.0.0.1''] [])"
    by (simp add: Let_def resolveDNS_def newState_def newCache_def cache_get_def cache_set_def
        rewriting_resolver_def ipToFqdn_def lookup_fails_def t state_of_def)
  with n show ?thesis by (simp add: lookup_fails_def)
qed

lemma BulkWalk_walkFn:
  "\<forall>p\<in>set pdus. Type p = OctetString \<longrightarrow> Value p \<noteq> OtherValue \<Longrightarrow>
   BulkWalk (walkFn n) acc pdus =
     Inr (case filter (\<lambda>p. Type p = OctetString \<and> Name p = n) pdus of
            [] \<Rightarrow> acc | ms \<Rightarrow> (bytes_of (Value (last ms)), True))"
proof (induction pdus arbitrary: acc)
  case Nil
  then show ?case by simp
next
  case (Cons p ps)
  then have ih: "BulkWalk (walkFn n) a ps =
     Inr (case filter (\<lambda>p. Type p = OctetString \<and> Name p = n) ps of
            [] \<Rightarrow> a | ms \<Rightarrow> (bytes_of (Value (last ms)), True))" for a
    by simp
  from Cons.prems have ok: "Type p = OctetString \<longrightarrow> Value p \<noteq> OtherValue" by simp
  show ?case
  proof (cases "Type p = OctetString \<and> Name p = n")
    case True
    with ok obtain b where b: "Value p = Bytes b" by (cases "Value p") auto
    with True have "walkFn n acc p = Inr (b, True)" by (simp add: walkFn_def)
    with True b show ?thesis
      by (simp add: ih bytes_of_def split: list.splits)
  next
    case False
    with ok have "walkFn n acc p = Inr acc"
      by (auto simp: walkFn_def split: asn1BER.splits pdu_value.splits)
    with False show ?thesis by (auto simp: ih)
  qed
qed



lemma ifIndexToIfName_eq:
  assumes "network (client_for Default community agentIP) ''1.3.6.1.2.1.31.1.1.1.1'' =
      Walked pdus err"
    and "\<forall>p\<in>set pdus. Type p = OctetString \<longrightarrow> Value p \<noteq> OtherValue"
  shows "ifIndexToIfName network Default ident community agentIP ifIndex =
     Inr (scan_rows ifIndex pdus, client_for Default community agentIP)"
proof -
  have d: "(if community \<noteq> [] then Default\<lparr>Target := agentIP\<rparr>\<lparr>Community := community\<rparr>
            else Default\<lparr>Target := agentIP\<rparr>)\<lparr>Timeout := 20, Retries := 5\<rparr> =
           client_for Default community agentIP"
    by (simp add: client_for_def)
  show ?thesis
    unfolding ifIndexToIfName_def Let_def d
    using assms(1) BulkWalk_walkFn [OF assms(2), of "''.1.3.6.1.2.1.31.1.1.1.1.'' @ ifIndex" "(ifIndex, False)"]
    by (simp add: scan_rows_def split: list.splits)
qed

text \<open>Without a connection the resolution panics, before any row is scanned.\<close>

lemma ifIndexToIfName_nil_conn:
  assumes "network (client_for Default community agentIP) ''1.3.6.1.2.1.31.1.1.1.1'' = ConnIsNil"
  shows "ifIndexToIfName network Default ident community agentIP ifIndex = Inl PanicNilConn"
proof -
  have d: "(if community \<noteq> [] then Default\<lparr>Target := agentIP\<rparr>\<lparr>Community := community\<rparr>
            else Default\<lparr>Target := agentIP\<rparr>)\<lparr>Timeout := 20, Retries := 5\<rparr> =
           client_for Default community agentIP"
    by (simp add: client_for_def)
  show ?thesis
    unfolding ifIndexToIfName_def Let_def d using assms by simp
qed

lemma scan_rows_no_match:
  "\<forall>p\<in>set pdus. \<not> (Type p = OctetString \<and> Name p = ''.1.3.6.1.2.1.31.1.1.1.1.'' @ ifIndex)
   \<Longrightarrow> scan_rows ifIndex pdus = ifIndex"
proof -
  assume "\<forall>p\<in>set pdus. \<not> (Type p = OctetString \<and> Name p = ''.1.3.6.1.2.1.31.1.1.1.1.'' @ ifIndex)"
  then have "filter (\<lambda>p. Type p = OctetString \<and> Name p = ''.1.3.6.1.2.1.31.1.1.1.1.'' @ ifIndex)
      pdus = []"
    by (simp add: filter_empty_conv)
  then show ?thesis by (simp add: scan_rows_def)
qed


text \<open>
  C6, as amended. On a cache miss, with the backend \<^verbatim>\<open>ifIndexToIfName\<close>, when the shared
  client has a connection and the walk hands over its rows, none of which breaks the type
  assertion of the callback, whether the walk then returns an error or not: every row is
  scanned, and the result is the value of the last octet-string row named by the
  interface-name subtree and the index, or the index itself when no row is; the result is
  stored in the interface cache under the key of the agent address and the index. (Nothing
  is said here of a resolution whose client has no connection after \<^verbatim>\<open>Connect\<close>, or whose
  walk hands over an octet-string row that does not hold bytes.)
\<close>

theorem iface_walk_result:
  "ifIndexToIfNameFn r = (\<lambda>t. ifIndexToIfName (network t)) \<Longrightarrow>
   cache_get (ifaceCache st) (ifaceKey agentIP ifaceIndex) = [] \<Longrightarrow>
   network (length (ifaceLookups st)) (client_for (snmpDefault st) (snmpCommunity r) agentIP)
     ''1.3.6.1.2.1.31.1.1.1.1'' = Walked pdus err \<Longrightarrow>
   \<forall>p\<in>set pdus. Type p = OctetString \<longrightarrow> Value p \<noteq> OtherValue \<Longrightarrow>
     resolveIFace r st ifaceIndex agentIP =
       Inr (scan_rows ifaceIndex pdus,
            st\<lparr>ops := ops st + 1,
               ifaceCache := (ifaceCache st)(ifaceKey agentIP ifaceIndex \<mapsto> scan_rows ifaceIndex pdus),
               snmpDefault := client_for (snmpDefault st) (snmpCommunity r) agentIP,
               ifaceLookups := ifaceLookups st @ [(agentIP, ifaceIndex)]\<rparr>)
     \<and> ((\<forall>p\<in>set pdus. \<not> (Type p = OctetString
                            \<and> Name p = ''.1.3.6.1.2.1.31.1.1.1.1.'' @ ifaceIndex)) \<longrightarrow>
          scan_rows ifaceIndex pdus = ifaceIndex)"
proof -
  assume b: "ifIndexToIfNameFn r = (\<lambda>t. ifIndexToIfName (network t))"
    and m: "cache_get (ifaceCache st) (ifaceKey agentIP ifaceIndex) = []"
    and w: "network (length (ifaceLookups st))
        (client_for (snmpDefault st) (snmpCommunity r) agentIP) ''1.3.6.1.2.1.31.1.1.1.1'' =
        Walked pdus err"
    and v: "\<forall>p\<in>set pdus. Type p = OctetString \<longrightarrow> Value p \<noteq> OtherValue"
  have "ifIndexToIfName (network (length (ifaceLookups st))) (snmpDefault st) (ops st + 1)
      (snmpCommunity r) agentIP ifaceIndex =
      Inr (scan_rows ifaceIndex pdus, client_for (snmpDefault st) (snmpCommunity r) agentIP)"
    using w v by (rule ifIndexToIfName_eq)
  then have "resolveIFace r st ifaceIndex agentIP =
       Inr (scan_rows ifaceIndex pdus,
            st\<lparr>ops := ops st + 1,
               ifaceCache := (ifaceCache st)(ifaceKey agentIP ifaceIndex \<mapsto> scan_rows ifaceIndex pdus),
               snmpDefault := client_for (snmpDefault st) (snmpCommunity r) agentIP,
               ifaceLookups := ifaceLookups st @ [(agentIP, ifaceIndex)]\<rparr>)"
    unfolding resolveIFace_miss [OF m] b by simp
  then show ?thesis using scan_rows_no_match [of pdus ifaceIndex] by blast
qed

theorem iface_walk_result_witness:
  "resolveIFace example_resolver (newState default_client) ''7'' ''10.0.0.1'' =
     Inr (''eth7'',
          state_of Map.empty [''10.0.0.1-7'' \<mapsto> ''eth7''] 1
            (client_for default_client [] ''10.0.0.1'') [] [(''10.0.0.1'', ''7'')])
   \<and> resolveIFace example_resolver (newState default_client) ''9'' ''10.0.0.1'' =
     Inr (''9'',
          state_of Map.empty [''10.0.0.1-9'' \<mapsto> ''9''] 1
            (client_for default_client [] ''10.0.0.1'') [] [(''10.0.0.1'', ''9'')])"
proof -
  let ?pdus = "[\<lparr>Name = ''.1.3.6.1.2.1.31.1.1.1.1.3'', Type = OctetString, Value = Bytes ''eth3''\<rparr>,
             \<lparr>Name = ''.1.3.6.1.2.1.31.1.1.1.1.7'', Type = OctetString, Value = Bytes ''eth7''\<rparr>]"
  have b: "ifIndexToIfNameFn example_resolver = (\<lambda>t. ifIndexToIfName (walk_eth7 t))"
    by (simp add: example_resolver_def)
  have m: "cache_get (ifaceCache (newState default_client)) (ifaceKey ''10.0.0.1'' i) = []" for i
    by (simp add: newState_def newCache_def cache_get_def)
  have w: "walk_eth7 (length (ifaceLookups (newState default_client)))
      (client_for (snmpDefault (newState default_client)) (snmpCommunity example_resolver)
         ''10.0.0.1'') ''1.3.6.1.2.1.31.1.1.1.1'' = Walked ?pdus False"
    by (simp add: walk_eth7_def)
  have v: "\<forall>p\<in>set ?pdus. Type p = OctetString \<longrightarrow> Value p \<noteq> OtherValue"
    by simp
  have s7: "scan_rows ''7'' ?pdus = ''eth7''" and s9: "scan_rows ''9'' ?pdus = ''9''"
    by (simp_all add: scan_rows_def bytes_of_def)
  from iface_walk_result [OF b m w v, of "''7''"] iface_walk_result [OF b m w v, of "''9''"]
  show ?thesis
    by (simp add: s7 s9 newState_def newCache_def state_of_def ifaceKey_def example_resolver_def)
qed

text \<open>
  C6 fails as stated: the walk hands over the row of interface 7 and then returns an error.
  The result is the name in the row, not the index, and the name is what the cache stores.
\<close>

theorem iface_walk_result_counterexample:
  "walk_row_then_error 0 (client_for default_client [] ''10.0.0.1'') ''1.3.6.1.2.1.31.1.1.1.1'' =
     Walked [\<lparr>Name = ''.1.3.6.1.2.1.31.1.1.1.1.7'', Type = OctetString, Value = Bytes ''eth7''\<rparr>]
       True
   \<and> ifIndexToIfName (walk_row_then_error 0) default_client 1 [] ''10.0.0.1'' ''7'' =
       Inr (''eth7'', client_for default_client [] ''10.0.0.1'')
   \<and> resolveIFace failing_walk_resolver (newState default_client) ''7'' ''10.0.0.1'' =
       Inr (''eth7'',
            state_of Map.empty [''10.0.0.1-7'' \<mapsto> ''eth7''] 1
              (client_for default_client [] ''10.0.0.1'') [] [(''10.0.0.1'', ''7'')])"
  by (simp add: Let_def resolveIFace_def newState_def newCache_def cache_get_def cache_set_def
      failing_walk_resolver_def example_resolver_def ifIndexToIfName_def walk_row_then_error_def
      walkFn_def ifaceKey_def state_of_def client_for_def default_client_def)

subsection \<open>The keys of the caches\<close>

lemma dnsResolve_nonempty:
  "GetTag m s \<noteq> Some [] \<Longrightarrow> j \<in> set (dnsResolve r m s d) \<Longrightarrow> job_nonempty j"
  by (cases "GetTag m s"; cases "dns r"; simp add: dnsResolve_def; blast)

lemma ifaceResolve_nonempty:
  "GetTag m s \<noteq> Some [] \<Longrightarrow> a \<noteq> [] \<Longrightarrow> j \<in> set (ifaceResolve r m s d a) \<Longrightarrow> job_nonempty j"
  by (cases "GetTag m s"; cases "snmpIfaces r"; simp add: ifaceResolve_def; blast)

lemma resolve_jobs_nonempty:
  assumes "source_tags_nonempty m" and "j \<in> set (resolve_jobs r m)"
  shows "job_nonempty j"
proof -
  from assms(1) have t: "GetTag m ''agent_ip'' \<noteq> Some []" "GetTag m ''src_ip'' \<noteq> Some []"
    "GetTag m ''dst_ip'' \<noteq> Some []" "GetTag m ''source_id_index'' \<noteq> Some []"
    "GetTag m ''netif_index_out'' \<noteq> Some []" "GetTag m ''netif_index_in'' \<noteq> Some []"
    by (simp_all add: source_tags_nonempty_def source_tags_def)
  show ?thesis
  proof (cases "GetTag m ''agent_ip''")
    case None
    with assms(2) have "j \<in> set (dnsResolve r m ''agent_ip'' ''host'')
        \<or> j \<in> set (dnsResolve r m ''src_ip'' ''src_host'')
        \<or> j \<in> set (dnsResolve r m ''dst_ip'' ''dst_host'')"
      by (simp add: resolve_jobs_def)
    with t show ?thesis using dnsResolve_nonempty by blast
  next
    case (Some a)
    with t(1) have a: "a \<noteq> []" by auto
    from Some assms(2) have "j \<in> set (dnsResolve r m ''agent_ip'' ''host'')
        \<or> j \<in> set (dnsResolve r m ''src_ip'' ''src_host'')
        \<or> j \<in> set (dnsResolve r m ''dst_ip'' ''dst_host'')
        \<or> j \<in> set (ifaceResolve r m ''source_id_index'' ''source_id_name'' a)
        \<or> j \<in> set (ifaceResolve r m ''netif_index_out'' ''netif_name_out'' a)
        \<or> j \<in> set (ifaceResolve r m ''netif_index_in'' ''netif_name_in'' a)"
      by (simp add: resolve_jobs_def)
    with t a show ?thesis using dnsResolve_nonempty ifaceResolve_nonempty by blast
  qed
qed

lemma resolveDNS_keys:
  assumes "keys_nonempty st" and "ip \<noteq> []"
  shows "keys_nonempty (snd (resolveDNS r st ip))"
proof (cases "cache_get (dnsCache st) ip = []")
  case True
  with assms show ?thesis
    unfolding resolveDNS_miss [OF True] by (simp add: keys_nonempty_def)
next
  case False
  then have h: "dnsCache st ip = Some (cache_get (dnsCache st) ip)" by (rule cache_get_nonempty)
  from resolveDNS_hit [OF h False, of r] assms(1) show ?thesis by simp
qed

lemma resolveIFace_keys:
  assumes "keys_nonempty st" and "i \<noteq> []" and "a \<noteq> []"
    and "resolveIFace r st i a = Inr (n, st')"
  shows "keys_nonempty st'"
proof (cases "cache_get (ifaceCache st) (ifaceKey a i) = []")
  case True
  from assms(4) obtain d where st': "st' = st\<lparr>ops := ops st + 1,
      ifaceCache := (ifaceCache st)(ifaceKey a i \<mapsto> n), snmpDefault := d,
      ifaceLookups := ifaceLookups st @ [(a, i)]\<rparr>"
    unfolding resolveIFace_miss [OF True] by (auto split: sum.splits)
  from assms(1-3) show ?thesis
    unfolding st' keys_nonempty_def by auto
next
  case False
  then have h: "ifaceCache st (ifaceKey a i) = Some (cache_get (ifaceCache st) (ifaceKey a i))"
    by (rule cache_get_nonempty)
  from resolveIFace_hit [OF h False, of r] assms(4) have "st' = st\<lparr>ops := ops st + 1\<rparr>"
    by simp
  with assms(1) show ?thesis by (simp add: keys_nonempty_def)
qed

lemma exec_job_keys:
  assumes "keys_nonempty st" and "job_nonempty j" and "exec_job r st j = Inr (n, st')"
  shows "keys_nonempty st'"
proof (cases j)
  case (DNSJob v dst)
  with assms(2,3) have "v \<noteq> []" and "st' = snd (resolveDNS r st v)" by auto
  with assms(1) show ?thesis using resolveDNS_keys by simp
next
  case (IFaceJob v agentIP dst)
  with assms(2,3) have "v \<noteq> []" "agentIP \<noteq> []" "resolveIFace r st v agentIP = Inr (n, st')"
    by auto
  with assms(1) show ?thesis using resolveIFace_keys by blast
qed

lemma worker_step_keys:
  assumes "keys_nonempty st" and "records_nonempty [e]" and "worker_step r st e = Inr st'"
  shows "keys_nonempty st'"
proof (cases e)
  case (RunJob m k)
  with assms(2) have m: "source_tags_nonempty m" by (simp add: records_nonempty_def)
  show ?thesis
  proof (cases "k < length (resolve_jobs r m)")
    case True
    then have "resolve_jobs r m ! k \<in> set (resolve_jobs r m)" by simp
    with m have j: "job_nonempty (resolve_jobs r m ! k)" by (rule resolve_jobs_nonempty)
    from True RunJob assms(3) obtain n where
      "exec_job r st (resolve_jobs r m ! k) = Inr (n, st')"
      by (auto split: sum.splits)
    with assms(1) j show ?thesis by (rule exec_job_keys)
  next
    case False
    with RunJob assms(1,3) show ?thesis by simp
  qed
next
  case ClearDNS
  with assms(3) have "st' = st\<lparr>dnsCache := Map.empty\<rparr>" by (simp add: cache_clear_def)
  with assms(1) show ?thesis by (simp add: keys_nonempty_def)
next
  case ClearIFace
  with assms(3) have "st' = st\<lparr>ifaceCache := Map.empty\<rparr>" by (simp add: cache_clear_def)
  with assms(1) show ?thesis by (simp add: keys_nonempty_def)
qed

lemma worker_run_keys:
  "keys_nonempty st \<Longrightarrow> records_nonempty es \<Longrightarrow> worker_run r st es = Inr st' \<Longrightarrow>
   keys_nonempty st'"
proof (induction es arbitrary: st)
  case Nil
  then show ?case by simp
next
  case (Cons e es)
  from Cons.prems(3) obtain st1 where s: "worker_step r st e = Inr st1"
    and w: "worker_run r st1 es = Inr st'"
    by (cases "worker_step r st e") simp_all
  from Cons.prems(2) have e: "records_nonempty [e]" and es: "records_nonempty es"
    by (simp_all add: records_nonempty_def)
  from worker_step_keys [OF Cons.prems(1) e s] have "keys_nonempty st1" .
  from Cons.IH [OF this es w] show ?case .
qed

lemma example_resolver_fields:
  "dnsp example_resolver = \<lparr>rePattern = None, template = []\<rparr>"
  "ipToFqdnFn example_resolver = (\<lambda>t. ipToFqdn (lookup_fails t))"
  "ifIndexToIfNameFn example_resolver = (\<lambda>t. ifIndexToIfName (walk_eth7 t))"
  "snmpCommunity example_resolver = []"
  by (simp_all add: example_resolver_def)

lemma resolveIFace_no_empty_key:
  assumes "[] \<notin> dom (ifaceCache st)" and "resolveIFace r st i a = Inr (n, st')"
  shows "[] \<notin> dom (ifaceCache st')"
proof (cases "cache_get (ifaceCache st) (ifaceKey a i) = []")
  case True
  from assms(2) obtain d where st': "st' = st\<lparr>ops := ops st + 1,
      ifaceCache := (ifaceCache st)(ifaceKey a i \<mapsto> n), snmpDefault := d,
      ifaceLookups := ifaceLookups st @ [(a, i)]\<rparr>"
    unfolding resolveIFace_miss [OF True] by (auto split: sum.splits)
  have "ifaceKey a i \<noteq> []" by (simp add: ifaceKey_def)
  with assms(1) show ?thesis unfolding st' by auto
next
  case False
  then have h: "ifaceCache st (ifaceKey a i) = Some (cache_get (ifaceCache st) (ifaceKey a i))"
    by (rule cache_get_nonempty)
  from resolveIFace_hit [OF h False, of r] assms(2) have "st' = st\<lparr>ops := ops st + 1\<rparr>"
    by simp
  with assms(1) show ?thesis by simp
qed

lemma resolveDNS_ifaceCache: "ifaceCache (snd (resolveDNS r st ip)) = ifaceCache st"
proof (cases "cache_get (dnsCache st) ip = []")
  case True
  show ?thesis unfolding resolveDNS_miss [OF True] by simp
next
  case False
  then have h: "dnsCache st ip = Some (cache_get (dnsCache st) ip)" by (rule cache_get_nonempty)
  from resolveDNS_hit [OF h False, of r] show ?thesis by simp
qed

lemma exec_job_no_empty_key:
  assumes "[] \<notin> dom (ifaceCache st)" and "exec_job r st j = Inr (n, st')"
  shows "[] \<notin> dom (ifaceCache st')"
proof (cases j)
  case (DNSJob v dst)
  with assms(2) have "st' = snd (resolveDNS r st v)" by auto
  with assms(1) show ?thesis by (simp add: resolveDNS_ifaceCache)
next
  case (IFaceJob v agentIP dst)
  with assms(2) have "resolveIFace r st v agentIP = Inr (n, st')" by simp
  with assms(1) show ?thesis by (rule resolveIFace_no_empty_key)
qed

lemma worker_step_no_empty_key:
  assumes "[] \<notin> dom (ifaceCache st)" and "worker_step r st e = Inr st'"
  shows "[] \<notin> dom (ifaceCache st')"
proof (cases e)
  case (RunJob m k)
  show ?thesis
  proof (cases "k < length (resolve_jobs r m)")
    case True
    with RunJob assms(2) obtain n where
      "exec_job r st (resolve_jobs r m ! k) = Inr (n, st')"
      by (auto split: sum.splits)
    with assms(1) show ?thesis by (rule exec_job_no_empty_key)
  next
    case False
    with RunJob assms show ?thesis by simp
  qed
next
  case ClearDNS
  with assms(2) have "st' = st\<lparr>dnsCache := Map.empty\<rparr>" by (simp add: cache_clear_def)
  with assms(1) show ?thesis by simp
next
  case ClearIFace
  with assms(2) have "st' = st\<lparr>ifaceCache := Map.empty\<rparr>" by (simp add: cache_clear_def)
  then show ?thesis by simp
qed

lemma worker_run_no_empty_key:
  "[] \<notin> dom (ifaceCache st) \<Longrightarrow> worker_run r st es = Inr st' \<Longrightarrow>
   [] \<notin> dom (ifaceCache st')"
proof (induction es arbitrary: st)
  case Nil
  then show ?case by simp
next
  case (Cons e es)
  from Cons.prems(2) obtain st1 where s: "worker_step r st e = Inr st1"
    and w: "worker_run r st1 es = Inr st'"
    by (cases "worker_step r st e") simp_all
  from worker_step_no_empty_key [OF Cons.prems(1) s] have "[] \<notin> dom (ifaceCache st1)" .
  from Cons.IH [OF this w] show ?case .
qed

text \<open>
  C8, as amended. Let the worker run, from the state of a new resolver on, in any order and
  with clears of either cache in between, jobs of calls of \<^verbatim>\<open>resolve\<close>. Whatever the tag
  values of the records, the interface cache holds no entry under the empty key. When none
  of the six source tags of the records has the empty string as its value, moreover, the DNS
  cache holds no entry under the empty key, and every key of the interface cache is built
  from a non-empty agent address and a non-empty index.
\<close>

theorem cache_keys_nonempty:
  "worker_run r (newState d) es = Inr st \<Longrightarrow>
     [] \<notin> dom (ifaceCache st)
     \<and> (records_nonempty es \<longrightarrow>
          [] \<notin> dom (dnsCache st)
          \<and> (\<forall>key\<in>dom (ifaceCache st). \<exists>a i. a \<noteq> [] \<and> i \<noteq> [] \<and> key = ifaceKey a i))"
proof -
  assume w: "worker_run r (newState d) es = Inr st"
  have "[] \<notin> dom (ifaceCache (newState d))"
    by (simp add: newState_def newCache_def)
  from worker_run_no_empty_key [OF this w] have i: "[] \<notin> dom (ifaceCache st)" .
  have "keys_nonempty st" if e: "records_nonempty es"
  proof -
    have "keys_nonempty (newState d)"
      by (simp add: keys_nonempty_def newState_def newCache_def)
    from worker_run_keys [OF this e w] show ?thesis .
  qed
  with i show ?thesis by (simp add: keys_nonempty_def)
qed

theorem cache_keys_nonempty_witness:
  "records_nonempty example_trace
   \<and> worker_run example_resolver (newState default_client) example_trace =
       Inr (state_of [''10.0.0.1'' \<mapsto> ''10.0.0.1''] [''10.0.0.1-7'' \<mapsto> ''eth7''] 1
              (client_for default_client [] ''10.0.0.1'') [''10.0.0.1'', ''10.0.0.1'']
              [(''10.0.0.1'', ''7'')])
   \<and> [] \<notin> dom [''10.0.0.1'' \<mapsto> ''10.0.0.1'']
   \<and> [] \<notin> dom [''10.0.0.1-7'' \<mapsto> ''eth7'']"
proof -
  have n: "records_nonempty example_trace"
    by (simp add: records_nonempty_def example_trace_def source_tags_nonempty_def
        source_tags_def example_metric_def GetTag_def)
  have j: "resolve_jobs example_resolver example_metric =
      [DNSJob ''10.0.0.1'' ''host'', IFaceJob ''7'' ''10.0.0.1'' ''netif_name_in'']"
    by (simp add: resolve_jobs_def dnsResolve_def ifaceResolve_def GetTag_def
        example_resolver_def example_metric_def)
  have w: "worker_run example_resolver (newState default_client) example_trace =
       Inr (state_of [''10.0.0.1'' \<mapsto> ''10.0.0.1''] [''10.0.0.1-7'' \<mapsto> ''eth7''] 1
              (client_for default_client [] ''10.0.0.1'') [''10.0.0.1'', ''10.0.0.1'']
              [(''10.0.0.1'', ''7'')])"
    by (simp add: example_trace_def j example_resolver_fields Let_def resolveDNS_def
        resolveIFace_def newState_def newCache_def cache_get_def cache_set_def cache_clear_def
        ipToFqdn_def lookup_fails_def transform_def ifIndexToIfName_def walk_eth7_def
        walkFn_def ifaceKey_def state_of_def client_for_def default_client_def)
  from cache_keys_nonempty [OF w] n w show ?thesis
    by (simp add: state_of_def)
qed

text \<open>
  C8 fails as stated: a record whose agent address tag is the empty string. Its DNS job
  stores an entry under the empty key, and its interface job an entry under a key built from
  the empty agent address.
\<close>

theorem cache_keys_nonempty_counterexample:
  "GetTag empty_agent_metric ''agent_ip'' = Some []
   \<and> worker_run example_resolver (newState default_client)
         [RunJob empty_agent_metric 0, RunJob empty_agent_metric 1] =
       Inr (state_of [[] \<mapsto> []] [''-7'' \<mapsto> ''eth7''] 1 (client_for default_client [] [])
              [[]] [([], ''7'')])
   \<and> dnsCache (state_of [[] \<mapsto> []] [''-7'' \<mapsto> ''eth7''] 1 (client_for default_client [] [])
                 [[]] [([], ''7'')]) [] = Some []
   \<and> ifaceKey [] ''7'' = ''-7''"
proof -
  have j: "resolve_jobs example_resolver empty_agent_metric =
      [DNSJob [] ''host'', IFaceJob ''7'' [] ''source_id_name'']"
    by (simp add: resolve_jobs_def dnsResolve_def ifaceResolve_def GetTag_def
        example_resolver_def empty_agent_metric_def)
  show ?thesis
    by (simp add: j example_resolver_fields Let_def resolveDNS_def resolveIFace_def
        newState_def newCache_def cache_get_def cache_set_def
        ipToFqdn_def lookup_fails_def transform_def ifIndexToIfName_def walk_eth7_def
        walkFn_def ifaceKey_def state_of_def client_for_def default_client_def)
      (simp add: GetTag_def empty_agent_metric_def)
qed

end
